theory Spec2Isabelle
  imports Main "HOL-Library.AList"
begin

section \<open>Menu extraction from the monthly sheets (scripts/menu.py)\<close>

text \<open>
  The development follows \<^verbatim>\<open>GoogleSheetsMenuParser\<close>. Cell text is a HOL string, one
  \<^typ>\<open>char\<close> per code point below 256. The Google Sheets service is a collaborator whose
  answers may depend on the calls made so far; every call is appended to a log.
\<close>

subsection \<open>Dates and their renderings\<close>

text \<open>A \<^verbatim>\<open>datetime\<close> value, reduced to the three fields the parser reads.\<close>

record date =
  year :: int
  month :: int
  day :: int

definition is_leap :: "int \<Rightarrow> bool" where
  "is_leap y = (y mod 4 = 0 \<and> (y mod 100 \<noteq> 0 \<or> y mod 400 = 0))"

text \<open>Length of month \<open>m\<close> in year \<open>y\<close> in the proleptic Gregorian calendar of \<^verbatim>\<open>datetime\<close>.\<close>

definition month_length :: "int \<Rightarrow> int \<Rightarrow> int" where
  "month_length y m =
     (if m = 2 then (if is_leap y then 29 else 28)
      else if m = 4 \<or> m = 6 \<or> m = 9 \<or> m = 11 then 30
      else 31)"

text \<open>The values \<^verbatim>\<open>datetime\<close> can hold.\<close>

definition valid_date :: "date \<Rightarrow> bool" where
  "valid_date d =
     (1 \<le> year d \<and> year d \<le> 9999 \<and> 1 \<le> month d \<and> month d \<le> 12 \<and>
      1 \<le> day d \<and> day d \<le> month_length (year d) (month d))"

definition digit :: "nat \<Rightarrow> char" where
  "digit n = ''0123456789'' ! (n mod 10)"

definition two_digits :: "int \<Rightarrow> string" where
  "two_digits n = [digit (nat n div 10), digit (nat n)]"

text \<open>\<^verbatim>\<open>%Y\<close>: the year in decimal, without padding.\<close>

definition year_digits :: "int \<Rightarrow> string" where
  "year_digits n =
     (if n < 10 then [digit (nat n)]
      else if n < 100 then [digit (nat n div 10), digit (nat n)]
      else if n < 1000 then [digit (nat n div 100), digit (nat n div 10), digit (nat n)]
      else [digit (nat n div 1000), digit (nat n div 100), digit (nat n div 10), digit (nat n)])"

text \<open>\<^verbatim>\<open>target_date.strftime('%d/%m')\<close>\<close>

definition strftime_dm :: "date \<Rightarrow> string" where
  "strftime_dm d = two_digits (day d) @ ''/'' @ two_digits (month d)"

text \<open>\<^verbatim>\<open>target_date.strftime('%Y-%m-%d')\<close>\<close>

definition strftime_ymd :: "date \<Rightarrow> string" where
  "strftime_ymd d = year_digits (year d) @ ''-'' @ two_digits (month d) @ ''-'' @ two_digits (day d)"

subsection \<open>Tab candidates (determine_sheet_for_date, lines 63 to 97)\<close>

definition month_names :: "int \<Rightarrow> string option" where
  "month_names = map_of
     [(1, ''Janvier''), (2, ''Fevrier''), (3, ''Mars''), (4, ''Avril''),
      (5, ''Mai''), (6, ''Juin''), (7, ''Juillet''), (8, ''Aout''),
      (9, ''Septembre''), (10, ''Octobre''), (11, ''Novembre''), (12, ''Decembre'')]"

text \<open>
  The list \<^verbatim>\<open>months_to_check\<close> once line 97 has run. The day before the first day of
  month \<open>m + 1\<close> is the last day of month \<open>m\<close>, so its \<^verbatim>\<open>.day\<close> is \<^const>\<open>month_length\<close>.
\<close>

definition months_to_check :: "date \<Rightarrow> int list" where
  "months_to_check target_date =
     (let target_month = month target_date;
          l0 = [target_month];
          l1 = (if day target_date \<le> 7
                then (if target_month > 1 then target_month - 1 else 12) # l0
                else l0);
          days_in_month = (if target_month = 12 then 31
                           else month_length (year target_date) target_month);
          next_month = (if target_month = 12 then 1 else target_month + 1)
      in if day target_date \<ge> days_in_month - 7 then l1 @ [next_month] else l1)"

subsection \<open>Strings\<close>

text \<open>\<^verbatim>\<open>str.isspace\<close> on one code point below 256.\<close>

definition isspace :: "char \<Rightarrow> bool" where
  "isspace c = (let n = (of_char c :: nat) in (9 \<le> n \<and> n \<le> 13) \<or> (28 \<le> n \<and> n \<le> 32) \<or> n = 133 \<or> n = 160)"

text \<open>\<^verbatim>\<open>s.strip()\<close>\<close>

definition strip :: "string \<Rightarrow> string" where
  "strip s = rev (dropWhile isspace (rev (dropWhile isspace s)))"

text \<open>\<^verbatim>\<open>s.split(' ')\<close>: cuts at every single space, and never returns an empty list.\<close>

fun split_space :: "string \<Rightarrow> string list" where
  "split_space [] = [[]]"
| "split_space (c # cs) =
     (if c = CHR '' '' then [] # split_space cs
      else (case split_space cs of [] \<Rightarrow> [[c]] | w # ws \<Rightarrow> (c # w) # ws))"

definition lower_char :: "char \<Rightarrow> char" where
  "lower_char c =
     (let n = (of_char c :: nat)
      in if (65 \<le> n \<and> n \<le> 90) \<or> (192 \<le> n \<and> n \<le> 222 \<and> n \<noteq> 215) then char_of (n + 32) else c)"

text \<open>\<^verbatim>\<open>s.lower()\<close>\<close>

definition lower :: "string \<Rightarrow> string" where
  "lower s = map lower_char s"

subsection \<open>Date cells\<close>

type_synonym grid = "string list list"

text \<open>
  The test both scans apply to a cell (lines 131 to 136 and 193 to 198): the cell is
  non-empty, contains a space, its stripped text splits at spaces into at least two
  parts, and the last part is the target's \<^verbatim>\<open>DD/MM\<close> text.
\<close>

definition date_part :: "string \<Rightarrow> string option" where
  "date_part cell =
     (if cell \<noteq> [] \<and> CHR '' '' \<in> set cell
      then (let parts = split_space (strip cell)
            in if length parts \<ge> 2 then Some (last parts) else None)
      else None)"

definition cell_has_date :: "string \<Rightarrow> string \<Rightarrow> bool" where
  "cell_has_date target_date_str cell = (date_part cell = Some target_date_str)"

text \<open>The two nested loops of \<^verbatim>\<open>date_exists_in_sheet\<close> over the fetched values.\<close>

definition date_in_values :: "grid \<Rightarrow> string \<Rightarrow> bool" where
  "date_in_values all_values target_date_str =
     list_ex (\<lambda>row. list_ex (cell_has_date target_date_str) row) all_values"

subsection \<open>The extraction scan (get_menus_for_dates, lines 183 to 225)\<close>

record menu =
  midi :: string
  soir :: string

type_synonym menus = "(string \<times> menu) list"

text \<open>Line 188: the row has more than one cell and its first cell is empty or blank.\<close>

definition header_candidate :: "string list \<Rightarrow> bool" where
  "header_candidate row = (length row > 1 \<and> (row ! 0 = [] \<or> strip (row ! 0) = []))"

text \<open>
  The loop over \<^verbatim>\<open>enumerate(row[1:], 1)\<close>: the index of the first cell that carries the
  target date, counting from \<open>col_idx\<close>.
\<close>

fun find_col :: "string \<Rightarrow> string list \<Rightarrow> nat \<Rightarrow> nat option" where
  "find_col target_date_str [] col_idx = None"
| "find_col target_date_str (cell # cells) col_idx =
     (if cell_has_date target_date_str cell then Some col_idx
      else find_col target_date_str cells (col_idx + 1))"

text \<open>The \<^verbatim>\<open>while i < len(all_values)\<close> loop, up to the cell at which it breaks.\<close>

function find_date_cell :: "grid \<Rightarrow> string \<Rightarrow> nat \<Rightarrow> (nat \<times> nat) option" where
  "find_date_cell all_values target_date_str i =
     (if i < length all_values
      then (let row = all_values ! i
            in if header_candidate row
               then (case find_col target_date_str (drop 1 row) 1 of
                       Some col_idx \<Rightarrow> Some (i, col_idx)
                     | None \<Rightarrow> find_date_cell all_values target_date_str (i + 1))
               else find_date_cell all_values target_date_str (i + 1))
      else None)"
  by pat_completeness auto
termination
  by (relation "measure (\<lambda>(all_values, target_date_str, i). length all_values - i)") auto

declare find_date_cell.simps [simp del]

text \<open>Lines 202 to 216: the entry written for a date matched at row \<open>i\<close>, column \<open>col_idx\<close>.\<close>

definition read_entry :: "grid \<Rightarrow> nat \<Rightarrow> nat \<Rightarrow> menu" where
  "read_entry all_values i col_idx =
     (let e0 = \<lparr>midi = [], soir = []\<rparr>;
          e1 = (if i + 1 < length all_values
                then (let midi_row = all_values ! (i + 1)
                      in if length midi_row > col_idx \<and> lower (strip (midi_row ! 0)) = ''midi''
                         then e0\<lparr>midi := strip (midi_row ! col_idx)\<rparr> else e0)
                else e0)
      in if i + 2 < length all_values
         then (let soir_row = all_values ! (i + 2)
               in if length soir_row > col_idx \<and> lower (strip (soir_row ! 0)) = ''soir''
                  then e1\<lparr>soir := strip (soir_row ! col_idx)\<rparr> else e1)
         else e1)"

text \<open>
  What the scan yields for one grid and one target text: the entry it writes, or nothing
  when the loop runs off the end of the grid.
\<close>

definition extract_menu :: "grid \<Rightarrow> string \<Rightarrow> menu option" where
  "extract_menu all_values target_date_str =
     (case find_date_cell all_values target_date_str 0 of
        None \<Rightarrow> None
      | Some (i, col_idx) \<Rightarrow> Some (read_entry all_values i col_idx))"

text \<open>The body of \<^verbatim>\<open>for target_date in dates_for_this_sheet\<close>, acting on \<^verbatim>\<open>menus\<close>.\<close>

definition extract_date :: "grid \<Rightarrow> menus \<Rightarrow> date \<Rightarrow> menus" where
  "extract_date all_values menus target_date =
     (case extract_menu all_values (strftime_dm target_date) of
        None \<Rightarrow> menus
      | Some e \<Rightarrow> AList.update (strftime_ymd target_date) e menus)"

subsection \<open>The collaborator\<close>

datatype call = OpenByKey | Worksheet string | GetAllValues string | Worksheets

datatype ws_lookup = WsOk | WorksheetNotFound | WsError

datatype exn = APIError | KeyError

text \<open>
  The answers of the service. Each answer is a function of the calls logged before it.
  \<open>get_all_values_r\<close> gives \<open>None\<close> when the call raises. The value returned by
  \<^verbatim>\<open>spreadsheet.worksheets()\<close> is never read and its exception is caught, so it has no field.
\<close>

record collaborator =
  gspread_available :: bool
  credentials_exist :: bool
  authorize_ok :: bool
  open_by_key_r :: "call list \<Rightarrow> bool"
  worksheet_r :: "call list \<Rightarrow> string \<Rightarrow> ws_lookup"
  get_all_values_r :: "call list \<Rightarrow> string \<Rightarrow> grid option"

definition setup_connection :: "collaborator \<Rightarrow> bool" where
  "setup_connection c =
     (if \<not> gspread_available c then False
      else if \<not> credentials_exist c then False
      else authorize_ok c)"

subsection \<open>The tab resolver (determine_sheet_for_date, date_exists_in_sheet)\<close>

text \<open>A worksheet handle is the title of its tab.\<close>

definition date_exists_in_sheet :: "collaborator \<Rightarrow> string \<Rightarrow> date \<Rightarrow> call list \<Rightarrow> bool \<times> call list" where
  "date_exists_in_sheet c worksheet target_date log =
     (case get_all_values_r c log worksheet of
        None \<Rightarrow> (False, log @ [GetAllValues worksheet])
      | Some all_values \<Rightarrow>
          (date_in_values all_values (strftime_dm target_date), log @ [GetAllValues worksheet]))"

text \<open>The body of the \<^verbatim>\<open>try\<close> at lines 102 to 112 for one tab name.\<close>

definition probe :: "collaborator \<Rightarrow> date \<Rightarrow> string \<Rightarrow> call list \<Rightarrow> bool \<times> call list" where
  "probe c target_date month_name log =
     (case worksheet_r c log month_name of
        WsOk \<Rightarrow> date_exists_in_sheet c month_name target_date (log @ [Worksheet month_name])
      | WorksheetNotFound \<Rightarrow> (False, log @ [Worksheet month_name])
      | WsError \<Rightarrow> (False, log @ [Worksheet month_name]))"

text \<open>The loop \<^verbatim>\<open>for month_num in months_to_check\<close>.\<close>

fun probe_months :: "collaborator \<Rightarrow> date \<Rightarrow> int list \<Rightarrow> call list \<Rightarrow> (exn + string option) \<times> call list" where
  "probe_months c target_date [] log = (Inr None, log)"
| "probe_months c target_date (month_num # rest) log =
     (case month_names month_num of
        None \<Rightarrow> (Inl KeyError, log)
      | Some month_name \<Rightarrow>
          (case probe c target_date month_name log of
             (True, log') \<Rightarrow> (Inr (Some month_name), log')
           | (False, log') \<Rightarrow> probe_months c target_date rest log'))"

text \<open>Lines 114 to 118: the tabs are listed, and any failure there is caught.\<close>

definition list_worksheets :: "collaborator \<Rightarrow> call list \<Rightarrow> call list" where
  "list_worksheets c log =
     (if open_by_key_r c log then log @ [OpenByKey, Worksheets] else log @ [OpenByKey])"

definition determine_sheet_for_date :: "collaborator \<Rightarrow> date \<Rightarrow> call list \<Rightarrow> (exn + string option) \<times> call list" where
  "determine_sheet_for_date c target_date log =
     (if \<not> open_by_key_r c log then (Inl APIError, log @ [OpenByKey])
      else (case probe_months c target_date (months_to_check target_date) (log @ [OpenByKey]) of
              (Inr None, log') \<Rightarrow> (Inr None, list_worksheets c log')
            | (r, log') \<Rightarrow> (r, log')))"

subsection \<open>The batch resolver (get_menus_for_dates)\<close>

type_synonym groups = "(string \<times> date list) list"

text \<open>Lines 160 to 166 on \<^verbatim>\<open>dates_by_worksheet\<close>, a dictionary in insertion order.\<close>

fun add_date :: "string \<Rightarrow> date \<Rightarrow> groups \<Rightarrow> groups" where
  "add_date worksheet_title target_date [] = [(worksheet_title, [target_date])]"
| "add_date worksheet_title target_date ((t, ds) # g) =
     (if t = worksheet_title then (t, ds @ [target_date]) # g
      else (t, ds) # add_date worksheet_title target_date g)"

text \<open>The first loop, lines 153 to 166. An exception of the resolver is not caught.\<close>

fun resolve_dates :: "collaborator \<Rightarrow> date list \<Rightarrow> groups \<Rightarrow> call list \<Rightarrow> (exn + groups) \<times> call list" where
  "resolve_dates c [] dates_by_worksheet log = (Inr dates_by_worksheet, log)"
| "resolve_dates c (target_date # rest) dates_by_worksheet log =
     (case determine_sheet_for_date c target_date log of
        (Inl e, log') \<Rightarrow> (Inl e, log')
      | (Inr None, log') \<Rightarrow> resolve_dates c rest dates_by_worksheet log'
      | (Inr (Some worksheet), log') \<Rightarrow>
          resolve_dates c rest (add_date worksheet target_date dates_by_worksheet) log')"

text \<open>The second loop, lines 169 to 228. A fetch that raises is caught and the group skipped.\<close>

fun process_groups :: "collaborator \<Rightarrow> groups \<Rightarrow> menus \<Rightarrow> call list \<Rightarrow> menus \<times> call list" where
  "process_groups c [] menus log = (menus, log)"
| "process_groups c ((worksheet, dates_for_this_sheet) # rest) menus log =
     (case get_all_values_r c log worksheet of
        None \<Rightarrow> process_groups c rest menus (log @ [GetAllValues worksheet])
      | Some all_values \<Rightarrow>
          process_groups c rest (foldl (extract_date all_values) menus dates_for_this_sheet)
            (log @ [GetAllValues worksheet]))"

definition get_menus_for_dates :: "collaborator \<Rightarrow> date list \<Rightarrow> call list \<Rightarrow> (exn + menus) \<times> call list" where
  "get_menus_for_dates c target_dates log =
     (if \<not> setup_connection c then (Inr [], log)
      else (case resolve_dates c target_dates [] log of
              (Inl e, log') \<Rightarrow> (Inl e, log')
            | (Inr dates_by_worksheet, log') \<Rightarrow>
                (case process_groups c dates_by_worksheet [] log' of
                   (menus, log'') \<Rightarrow> (Inr menus, log''))))"

subsection \<open>The caller's reading of the result (menu_fetcher.py, lines 65 to 66)\<close>

text \<open>\<^verbatim>\<open>raw_menus.get(key, {}).get('midi', '')\<close> and the same for \<^verbatim>\<open>'soir'\<close>.\<close>

definition menu_fields :: "menus \<Rightarrow> string \<Rightarrow> menu" where
  "menu_fields raw_menus key =
     (case map_of raw_menus key of None \<Rightarrow> \<lparr>midi = [], soir = []\<rparr> | Some e \<Rightarrow> e)"

subsection \<open>Traces\<close>

text \<open>The log after the tabs \<open>names\<close> have been probed one after the other.\<close>

definition probe_log :: "collaborator \<Rightarrow> date \<Rightarrow> string list \<Rightarrow> call list \<Rightarrow> call list" where
  "probe_log c target_date names log = foldl (\<lambda>l n. snd (probe c target_date n l)) log names"

fun is_worksheet_call :: "call \<Rightarrow> bool" where
  "is_worksheet_call (Worksheet n) = True"
| "is_worksheet_call x = False"



subsection \<open>The specification's reading of a cell\<close>

text \<open>
  The specification splits a cell's text on white space and takes the last token. The
  tokens are the maximal runs of characters that are not white space.
\<close>

fun whitespace_tokens :: "string \<Rightarrow> string list" where
  "whitespace_tokens [] = []"
| "whitespace_tokens (c # cs) =
     (if isspace c then whitespace_tokens cs
      else (case cs of
              [] \<Rightarrow> [[c]]
            | d # ds \<Rightarrow>
                if isspace d then [c] # whitespace_tokens cs
                else (case whitespace_tokens cs of [] \<Rightarrow> [[c]] | w # ws \<Rightarrow> (c # w) # ws)))"

definition last_whitespace_token :: "string \<Rightarrow> string option" where
  "last_whitespace_token cell =
     (case whitespace_tokens cell of [] \<Rightarrow> None | w # ws \<Rightarrow> Some (last (w # ws)))"

subsection \<open>Sample data\<close>

definition scenario_grid :: grid where
  "scenario_grid =
     [['''', ''lundi 30/06'', ''mardi 01/07''],
      [''Midi'', ''Pates'', ''Riz''],
      [''Soir'', ''Soupe'', ''Salade'']]"

definition mars_grid :: grid where
  "mars_grid =
     [['''', ''lundi 10/03'', ''mardi 11/03''],
      [''Midi'', ''Pates'', ''Riz''],
      [''Soir'', ''Soupe'', ''Salade'']]"

text \<open>A date cell in column 0, and one in a row whose first cell is a label.\<close>

definition column0_grid :: grid where
  "column0_grid = [[''lundi 10/03'', ''x'']]"

definition labelled_row_grid :: grid where
  "labelled_row_grid = [[''Semaine'', ''lundi 10/03'']]"

text \<open>A date row with nothing below it.\<close>

definition bare_date_grid :: grid where
  "bare_date_grid = [['''', ''lundi 10/03'']]"

definition march_5 :: date where
  "march_5 = \<lparr>year = 2025, month = 3, day = 5\<rparr>"

definition march_10 :: date where
  "march_10 = \<lparr>year = 2025, month = 3, day = 10\<rparr>"

definition march_11 :: date where
  "march_11 = \<lparr>year = 2025, month = 3, day = 11\<rparr>"

definition december_28 :: date where
  "december_28 = \<lparr>year = 2025, month = 12, day = 28\<rparr>"

definition january_3 :: date where
  "january_3 = \<lparr>year = 2025, month = 1, day = 3\<rparr>"

text \<open>A service with the single tab Mars, holding \<^const>\<open>mars_grid\<close>.\<close>

definition sheets_mars :: collaborator where
  "sheets_mars =
     \<lparr>gspread_available = True, credentials_exist = True, authorize_ok = True,
      open_by_key_r = (\<lambda>log. True),
      worksheet_r = (\<lambda>log n. if n = ''Mars'' then WsOk else WorksheetNotFound),
      get_all_values_r = (\<lambda>log n. if n = ''Mars'' then Some mars_grid else None)\<rparr>"

text \<open>The same service, whose tab Mars holds \<^const>\<open>column0_grid\<close>.\<close>

definition sheets_column0 :: collaborator where
  "sheets_column0 = sheets_mars\<lparr>get_all_values_r := (\<lambda>log n. if n = ''Mars'' then Some column0_grid else None)\<rparr>"


text \<open>The same service, unreachable: \<^verbatim>\<open>open_by_key\<close> raises.\<close>

definition sheets_unreachable :: collaborator where
  "sheets_unreachable = sheets_mars\<lparr>open_by_key_r := (\<lambda>log. False)\<rparr>"

text \<open>The same service, whose tab Mars is found empty from the second fetch on.\<close>

definition sheets_emptied :: collaborator where
  "sheets_emptied = sheets_mars\<lparr>get_all_values_r :=
     (\<lambda>log n. if n = ''Mars''
                then (if GetAllValues ''Mars'' \<in> set log then Some [] else Some mars_grid)
                else None)\<rparr>"




text \<open>A row whose column 1 holds the date with nothing but a space before it.\<close>

definition leading_space_grid :: grid where
  "leading_space_grid =
     [['''', '' 30/06'', ''mardi 30/06''],
      [''Midi'', ''A'', ''B''],
      [''Soir'', ''C'', ''D'']]"

definition fevrier_grid :: grid where
  "fevrier_grid = [['''', '' 05/03'']]"

definition mars_early_grid :: grid where
  "mars_early_grid =
     [['''', ''mercredi 05/03''],
      [''Midi'', ''Pates''],
      [''Soir'', ''Soupe'']]"

text \<open>A service with the tabs Fevrier and Mars, holding the two grids above.\<close>

definition sheets_leading_space :: collaborator where
  "sheets_leading_space =
     \<lparr>gspread_available = True, credentials_exist = True, authorize_ok = True,
      open_by_key_r = (\<lambda>log. True),
      worksheet_r = (\<lambda>log n. if n = ''Fevrier'' \<or> n = ''Mars'' then WsOk else WorksheetNotFound),
      get_all_values_r =
        (\<lambda>log n. if n = ''Fevrier'' then Some fevrier_grid
                   else if n = ''Mars'' then Some mars_early_grid
                   else None)\<rparr>"


section \<open>Properties\<close>

subsection \<open>Month names and tab candidates\<close>

lemma month_range:
  "1 \<le> m \<Longrightarrow> m \<le> (12::int) \<Longrightarrow>
   m = 1 \<or> m = 2 \<or> m = 3 \<or> m = 4 \<or> m = 5 \<or> m = 6 \<or> m = 7 \<or> m = 8 \<or> m = 9 \<or> m = 10 \<or> m = 11 \<or> m = 12"
  by arith

lemma month_names_Some: "1 \<le> m \<Longrightarrow> m \<le> 12 \<Longrightarrow> \<exists>n. month_names m = Some n"
  using month_range [of m] by (auto simp: month_names_def)

lemma month_names_inj: "inj_on month_names {1..12}"
proof (rule inj_onI)
  fix a b :: int
  assume a: "a \<in> {1..12}" and b: "b \<in> {1..12}" and e: "month_names a = month_names b"
  from a have "a = 1 \<or> a = 2 \<or> a = 3 \<or> a = 4 \<or> a = 5 \<or> a = 6 \<or> a = 7 \<or> a = 8 \<or> a = 9 \<or> a = 10 \<or> a = 11 \<or> a = 12"
    using month_range [of a] by simp
  moreover from b have "b = 1 \<or> b = 2 \<or> b = 3 \<or> b = 4 \<or> b = 5 \<or> b = 6 \<or> b = 7 \<or> b = 8 \<or> b = 9 \<or> b = 10 \<or> b = 11 \<or> b = 12"
    using month_range [of b] by simp
  ultimately show "a = b" using e
    by (elim disjE) (simp_all add: month_names_def)
qed

lemma month_length_bounds: "28 \<le> month_length y m \<and> month_length y m \<le> 31"
  by (simp add: month_length_def)

text \<open>The three shapes of the list of months, for a date \<^verbatim>\<open>datetime\<close> can hold.\<close>

lemma months_to_check_cases:
  assumes "valid_date d"
  shows "months_to_check d =
     (if day d \<le> 7 then [if month d > 1 then month d - 1 else 12, month d]
      else if day d \<ge> (if month d = 12 then 31 else month_length (year d) (month d)) - 7
           then [month d, if month d = 12 then 1 else month d + 1]
      else [month d])"
  using assms month_length_bounds [of "year d" "month d"]
  by (auto simp: months_to_check_def Let_def valid_date_def)

lemma months_to_check_range:
  assumes "valid_date d" and "m \<in> set (months_to_check d)"
  shows "1 \<le> m \<and> m \<le> 12"
  using assms(2) assms(1) unfolding months_to_check_cases [OF assms(1)]
  by (auto simp: valid_date_def split: if_splits)

lemma months_to_check_names:
  assumes "valid_date d"
  shows "\<exists>names. map month_names (months_to_check d) = map Some names"
proof -
  have "\<forall>m\<in>set ms. 1 \<le> m \<and> m \<le> 12 \<Longrightarrow> \<exists>names. map month_names ms = map Some names" for ms
  proof (induction ms)
    case Nil
    then show ?case by simp
  next
    case (Cons m ms)
    then obtain names where n: "map month_names ms = map Some names" by auto
    from Cons.prems obtain x where "month_names m = Some x"
      using month_names_Some [of m] by auto
    with n have "map month_names (m # ms) = map Some (x # names)" by simp
    then show ?case by blast
  qed
  then show ?thesis using months_to_check_range [OF assms] by blast
qed

subsection \<open>The probing loop\<close>

lemma probe_log_Nil: "probe_log c d [] log = log"
  by (simp add: probe_log_def)

lemma probe_log_Cons: "probe_log c d (n # ns) log = probe_log c d ns (snd (probe c d n log))"
  by (simp add: probe_log_def)

lemma probe_log_snoc: "probe_log c d (ns @ [n]) log = snd (probe c d n (probe_log c d ns log))"
  by (simp add: probe_log_def)

text \<open>A probe succeeds when the tab exists, its fetch returns and the grid holds the date.\<close>

lemma probe_succeeds_iff:
  "fst (probe c d n log) \<longleftrightarrow>
     worksheet_r c log n = WsOk \<and>
     (\<exists>g. get_all_values_r c (log @ [Worksheet n]) n = Some g \<and> date_in_values g (strftime_dm d))"
  by (simp add: probe_def date_exists_in_sheet_def split: ws_lookup.splits option.splits)

lemma probe_calls:
  "snd (probe c d n log) = log @ [Worksheet n] \<or>
   snd (probe c d n log) = log @ [Worksheet n, GetAllValues n]"
  by (simp add: probe_def date_exists_in_sheet_def split: ws_lookup.splits option.splits)

lemma probe_log_calls:
  "\<exists>ext. probe_log c d names log = log @ ext \<and>
         filter is_worksheet_call ext = map Worksheet names"
proof (induction names arbitrary: log)
  case Nil
  then show ?case by (simp add: probe_log_Nil)
next
  case (Cons n names)
  obtain e1 where e1: "snd (probe c d n log) = log @ e1" and f1: "filter is_worksheet_call e1 = [Worksheet n]"
    using probe_calls [of c d n log] by auto
  from Cons.IH [of "log @ e1"] obtain e2 where
    e2: "probe_log c d names (log @ e1) = (log @ e1) @ e2" and f2: "filter is_worksheet_call e2 = map Worksheet names"
    by blast
  have "probe_log c d (n # names) log = log @ (e1 @ e2)"
    by (simp add: probe_log_Cons e1 e2)
  moreover have "filter is_worksheet_call (e1 @ e2) = map Worksheet (n # names)"
    by (simp add: f1 f2)
  ultimately show ?case by blast
qed

text \<open>
  The loop stops at the first tab, in the order of the list, whose probe succeeds; every
  probe starts from the log the earlier ones have left.
\<close>

lemma probe_months_char:
  assumes "map month_names ms = map Some names"
  shows "\<exists>k\<le>length names.
           (\<forall>j<k. \<not> fst (probe c d (names ! j) (probe_log c d (take j names) log))) \<and>
           (if k < length names
            then fst (probe c d (names ! k) (probe_log c d (take k names) log)) \<and>
                 probe_months c d ms log =
                   (Inr (Some (names ! k)), probe_log c d (take (Suc k) names) log)
            else probe_months c d ms log = (Inr None, probe_log c d names log))"
  using assms
proof (induction ms arbitrary: names log)
  case Nil
  then show ?case by (simp add: probe_log_Nil)
next
  case (Cons m ms)
  from Cons.prems obtain n names' where names: "names = n # names'"
    and mn: "month_names m = Some n" and rest: "map month_names ms = map Some names'"
    by (cases names) auto
  obtain b l1 where p: "probe c d n log = (b, l1)" by (cases "probe c d n log")
  show ?case
  proof (cases b)
    case True
    with p mn have "probe_months c d (m # ms) log = (Inr (Some n), l1)" by simp
    with p True names show ?thesis
      by (intro exI [of _ 0]) (simp add: probe_log_Nil probe_log_Cons)
  next
    case False
    with p mn have step: "probe_months c d (m # ms) log = probe_months c d ms l1" by simp
    from Cons.IH [OF rest, of l1] obtain k where k: "k \<le> length names'"
      and skipped: "\<forall>j<k. \<not> fst (probe c d (names' ! j) (probe_log c d (take j names') l1))"
      and stop: "if k < length names'
            then fst (probe c d (names' ! k) (probe_log c d (take k names') l1)) \<and>
                 probe_months c d ms l1 =
                   (Inr (Some (names' ! k)), probe_log c d (take (Suc k) names') l1)
            else probe_months c d ms l1 = (Inr None, probe_log c d names' l1)"
      by blast
    have l1: "snd (probe c d n log) = l1" using p by simp
    have sk: "\<forall>j<Suc k. \<not> fst (probe c d (names ! j) (probe_log c d (take j names) log))"
    proof (intro allI impI)
      fix j assume j: "j < Suc k"
      show "\<not> fst (probe c d (names ! j) (probe_log c d (take j names) log))"
      proof (cases j)
        case 0
        then show ?thesis using p False names by (simp add: probe_log_Nil)
      next
        case (Suc j')
        with j skipped show ?thesis by (simp add: names probe_log_Cons l1)
      qed
    qed
    show ?thesis
      using k sk stop step
      by (intro exI [of _ "Suc k"]) (simp add: names probe_log_Cons l1)
  qed
qed

lemma list_worksheets_calls:
  "\<exists>ext. list_worksheets c log = log @ ext \<and> filter is_worksheet_call ext = []"
  by (simp add: list_worksheets_def)

subsection \<open>Cells made of a word, a space and a token\<close>

lemma strip_unchanged:
  assumes "s \<noteq> []" and "\<not> isspace (hd s)" and "\<not> isspace (last s)"
  shows "strip s = s"
proof -
  from assms(1,2) have a: "dropWhile isspace s = s" by (cases s) auto
  from assms(1,3) have "\<not> isspace (hd (rev s))" by (simp add: hd_rev)
  with assms(1) have "dropWhile isspace (rev s) = rev s" by (cases "rev s") auto
  with a show ?thesis by (simp add: strip_def)
qed

lemma split_space_one: "CHR '' '' \<notin> set s \<Longrightarrow> split_space s = [s]"
  by (induction s) auto

lemma split_space_word:
  "CHR '' '' \<notin> set w \<Longrightarrow> split_space (w @ CHR '' '' # r) = w # split_space r"
  by (induction w) auto

text \<open>
  A cell \<open>word token\<close>, the two free of white space, has the token as its date part:
  this is the cell \<^verbatim>\<open>lundi 30/06\<close> of the sheets.
\<close>

lemma word_space_token:
  assumes "w \<noteq> []" and "\<forall>ch\<in>set w. \<not> isspace ch"
    and "t' \<noteq> []" and "\<forall>ch\<in>set t'. \<not> isspace ch"
  shows "date_part (w @ '' '' @ t') = Some t'"
proof -
  have sp: "isspace (CHR '' '')" by (simp add: isspace_def)
  from sp assms(2) have nw: "CHR '' '' \<notin> set w" by blast
  from sp assms(4) have nt: "CHR '' '' \<notin> set t'" by blast
  let ?cell = "w @ '' '' @ t'"
  from assms(1,2) have h: "\<not> isspace (hd ?cell)" by (cases w) auto
  from assms(3,4) have l: "\<not> isspace (last ?cell)" by simp
  have s: "strip ?cell = ?cell" using strip_unchanged [of ?cell] h l by simp
  have "split_space ?cell = [w, t']"
    using split_space_word [OF nw, of t'] split_space_one [OF nt] by simp
  with s show ?thesis by (simp add: date_part_def)
qed

subsection \<open>White space, tokens and the cell test\<close>

lemma isspace_space: "isspace (CHR '' '')"
  by (simp add: isspace_def)

lemma strip_empty_iff: "strip s = [] \<longleftrightarrow> (\<forall>ch\<in>set s. isspace ch)"
proof
  assume "strip s = []"
  then have a: "\<forall>ch\<in>set (dropWhile isspace s). isspace ch"
    by (simp add: strip_def)
  have "dropWhile isspace s = []"
  proof (rule ccontr)
    assume n: "dropWhile isspace s \<noteq> []"
    then have "\<not> isspace (hd (dropWhile isspace s))" by (rule hd_dropWhile)
    moreover from n have "hd (dropWhile isspace s) \<in> set (dropWhile isspace s)" by simp
    ultimately show False using a by blast
  qed
  then show "\<forall>ch\<in>set s. isspace ch" by simp
next
  assume "\<forall>ch\<in>set s. isspace ch"
  then show "strip s = []" by (auto simp: strip_def dest: set_dropWhileD)
qed

text \<open>Line 188 in plain terms: more than one cell, and a first cell of white space only.\<close>

lemma header_candidate_iff:
  "header_candidate row \<longleftrightarrow> 1 < length row \<and> (\<forall>ch\<in>set (row ! 0). isspace ch)"
  by (auto simp: header_candidate_def strip_empty_iff)

text \<open>The cell test of lines 193 to 198 in plain terms.\<close>

lemma cell_has_date_iff:
  "cell_has_date t cell \<longleftrightarrow>
     cell \<noteq> [] \<and> CHR '' '' \<in> set cell \<and> 2 \<le> length (split_space (strip cell)) \<and>
     last (split_space (strip cell)) = t"
  by (auto simp: cell_has_date_def date_part_def Let_def)

lemma date_in_values_iff:
  "date_in_values g t \<longleftrightarrow>
     (\<exists>row\<in>set g. \<exists>cell\<in>set row.
        cell \<noteq> [] \<and> CHR '' '' \<in> set cell \<and> 2 \<le> length (split_space (strip cell)) \<and>
        last (split_space (strip cell)) = t)"
  by (simp add: date_in_values_def list_ex_iff cell_has_date_iff)

lemma strip_decomp:
  "\<exists>lead trail. cell = lead @ strip cell @ trail \<and>
      (\<forall>ch\<in>set lead. isspace ch) \<and> (\<forall>ch\<in>set trail. isspace ch)"
proof -
  let ?rest = "dropWhile isspace cell"
  let ?lead = "takeWhile isspace cell"
  let ?trail = "rev (takeWhile isspace (rev ?rest))"
  have "rev (takeWhile isspace (rev ?rest) @ dropWhile isspace (rev ?rest)) = rev (rev ?rest)"
    by (simp only: takeWhile_dropWhile_id)
  then have "rev (dropWhile isspace (rev ?rest)) @ ?trail = ?rest"
    by (simp only: rev_append rev_rev_ident)
  then have r: "?rest = strip cell @ ?trail" unfolding strip_def by (rule sym)
  have "cell = ?lead @ ?rest" by simp
  with r have c: "cell = ?lead @ strip cell @ ?trail" by simp
  have l: "\<forall>ch\<in>set ?lead. isspace ch" by (auto dest: set_takeWhileD)
  have t: "\<forall>ch\<in>set ?trail. isspace ch" by (auto dest: set_takeWhileD)
  from c l t show ?thesis by blast
qed

text \<open>The last part of a text split at spaces is what follows its last space.\<close>

lemma split_space_nonempty: "split_space s \<noteq> []"
  by (cases s) (auto split: list.splits)

lemma split_space_shape:
  "split_space s = [s] \<or>
   (2 \<le> length (split_space s) \<and> (\<exists>p. s = p @ CHR '' '' # last (split_space s)))"
proof (induction s)
  case Nil
  then show ?case by simp
next
  case (Cons c cs)
  obtain w ws where ne: "split_space cs = w # ws"
    using split_space_nonempty [of cs] by (cases "split_space cs") simp_all
  from Cons.IH show ?case
  proof
    assume one: "split_space cs = [cs]"
    show ?thesis
    proof (cases "c = CHR '' ''")
      case True
      with one have "split_space (c # cs) = [[], cs]" by simp
      with True have "2 \<le> length (split_space (c # cs)) \<and>
          c # cs = [] @ CHR '' '' # last (split_space (c # cs))" by simp
      then show ?thesis by blast
    next
      case False
      with one show ?thesis by simp
    qed
  next
    assume two: "2 \<le> length (split_space cs) \<and> (\<exists>p. cs = p @ CHR '' '' # last (split_space cs))"
    then obtain p where p: "cs = p @ CHR '' '' # last (split_space cs)" by blast
    from two ne have ws: "ws \<noteq> []" by auto
    have l: "last (split_space (c # cs)) = last (split_space cs)"
      using ne ws by (cases "c = CHR '' ''") simp_all
    have n: "2 \<le> length (split_space (c # cs))"
      using ne ws by (cases "c = CHR '' ''") (simp_all add: Suc_le_eq)
    from p have "c # cs = c # (p @ CHR '' '' # last (split_space cs))" by (rule arg_cong)
    also have "\<dots> = (c # p) @ CHR '' '' # last (split_space (c # cs))"
      by (simp only: l append_Cons)
    finally have "\<exists>p'. c # cs = p' @ CHR '' '' # last (split_space (c # cs))" by (rule exI)
    with n show ?thesis by (intro disjI2 conjI)
  qed
qed

lemma tokens_all_space: "\<forall>ch\<in>set s. isspace ch \<Longrightarrow> whitespace_tokens s = []"
  by (induction s) auto

lemma tokens_leading:
  "\<forall>ch\<in>set lead. isspace ch \<Longrightarrow> whitespace_tokens (lead @ s) = whitespace_tokens s"
  by (induction lead) auto

lemma tokens_nonempty: "\<not> isspace c \<Longrightarrow> whitespace_tokens (c # cs) \<noteq> []"
  by (cases cs) (auto split: list.splits)

lemma tokens_word:
  assumes "t \<noteq> []" and "\<forall>ch\<in>set t. \<not> isspace ch" and "\<forall>ch\<in>set trail. isspace ch"
  shows "whitespace_tokens (t @ trail) = [t]"
  using assms(1,2)
proof (induction t)
  case Nil
  then show ?case by simp
next
  case (Cons c t)
  show ?case
  proof (cases t)
    case Nil
    show ?thesis
    proof (cases trail)
      case Nil
      with \<open>t = []\<close> Cons.prems show ?thesis by simp
    next
      case (Cons d ds)
      with assms(3) have "isspace d" by simp
      with Cons \<open>t = []\<close> Cons.prems tokens_all_space [OF assms(3)] show ?thesis by simp
    qed
  next
    case (Cons d ds)
    with Cons.prems have nd: "\<not> isspace d" and nc: "\<not> isspace c" by auto
    from Cons Cons.prems Cons.IH have "whitespace_tokens (t @ trail) = [t]" by auto
    with Cons nd nc show ?thesis by simp
  qed
qed

lemma tokens_split:
  "isspace s \<Longrightarrow> whitespace_tokens (q @ s # r) = whitespace_tokens q @ whitespace_tokens r"
proof (induction q)
  case Nil
  then show ?case by simp
next
  case (Cons c q)
  show ?case
  proof (cases "isspace c")
    case True
    with Cons show ?thesis by simp
  next
    case False
    note nc = False
    show ?thesis
    proof (cases q)
      case Nil
      with nc Cons.prems show ?thesis by simp
    next
      case (Cons d ds)
      note q = Cons
      show ?thesis
      proof (cases "isspace d")
        case True
        with nc q Cons.IH [OF Cons.prems] show ?thesis by simp
      next
        case False
        from tokens_nonempty [OF False, of ds] q obtain w ws where
          w: "whitespace_tokens q = w # ws" by (cases "whitespace_tokens q") auto
        with Cons.IH [OF Cons.prems] have "whitespace_tokens (q @ s # r) = w # (ws @ whitespace_tokens r)"
          by simp
        with w nc False q show ?thesis by simp
      qed
    qed
  qed
qed

text \<open>
  A cell that passes the cell test for a target free of white space has the target as its
  last token.
\<close>

lemma cell_has_date_token:
  assumes "t \<noteq> []" and "\<forall>ch\<in>set t. \<not> isspace ch" and "cell_has_date t cell"
  shows "last_whitespace_token cell = Some t"
proof -
  from assms(3) have two: "2 \<le> length (split_space (strip cell))"
    and l: "last (split_space (strip cell)) = t"
    by (simp_all add: cell_has_date_iff)
  from split_space_shape [of "strip cell"] two l obtain p where
    p: "strip cell = p @ CHR '' '' # t" by auto
  from strip_decomp [of cell] obtain lead trail where c: "cell = lead @ strip cell @ trail"
    and lead: "\<forall>ch\<in>set lead. isspace ch" and trail: "\<forall>ch\<in>set trail. isspace ch" by blast
  have "lead @ strip cell @ trail = lead @ (p @ CHR '' '' # (t @ trail))" by (simp add: p)
  with c have "cell = lead @ (p @ CHR '' '' # (t @ trail))" by (rule trans)
  then have "whitespace_tokens cell = whitespace_tokens (lead @ (p @ CHR '' '' # (t @ trail)))"
    by (rule arg_cong)
  also have "\<dots> = whitespace_tokens (p @ CHR '' '' # (t @ trail))"
    using lead by (rule tokens_leading)
  also have "\<dots> = whitespace_tokens p @ whitespace_tokens (t @ trail)"
    using tokens_split [OF isspace_space] by simp
  also have "\<dots> = whitespace_tokens p @ [t]"
    using tokens_word [OF assms(1,2) trail] by simp
  finally have "whitespace_tokens cell = whitespace_tokens p @ [t]" .
  then have "whitespace_tokens cell \<noteq> []" and "last (whitespace_tokens cell) = t"
    by simp_all
  then show ?thesis
    by (cases "whitespace_tokens cell") (simp_all add: last_whitespace_token_def)
qed

lemma digit_plain: "\<not> isspace (digit n)"
proof -
  have "n mod 10 < length ''0123456789''" by simp
  then have "digit n \<in> set ''0123456789''" unfolding digit_def by (rule nth_mem)
  then show ?thesis by (auto simp: isspace_def)
qed

text \<open>The rendering \<^verbatim>\<open>%d/%m\<close> of a date is not empty and holds no white space.\<close>

lemma strftime_dm_plain: "strftime_dm d \<noteq> [] \<and> (\<forall>ch\<in>set (strftime_dm d). \<not> isspace ch)"
  using digit_plain by (auto simp: strftime_dm_def two_digits_def isspace_def)

subsection \<open>The scan of a row and of the grid\<close>

lemma find_col_None:
  "find_col t cells k = None \<longleftrightarrow> (\<forall>j<length cells. \<not> cell_has_date t (cells ! j))"
proof (induction cells arbitrary: k)
  case Nil
  then show ?case by simp
next
  case (Cons cell cells)
  show ?case
  proof (cases "cell_has_date t cell")
    case True
    then show ?thesis by auto
  next
    case False
    then show ?thesis using Cons.IH [of "k + 1"] by (auto simp: less_Suc_eq_0_disj)
  qed
qed

lemma find_col_Some:
  "find_col t cells k = Some c \<Longrightarrow>
     k \<le> c \<and> c - k < length cells \<and> cell_has_date t (cells ! (c - k)) \<and>
     (\<forall>j<c - k. \<not> cell_has_date t (cells ! j))"
proof (induction cells arbitrary: k)
  case Nil
  then show ?case by simp
next
  case (Cons cell cells)
  show ?case
  proof (cases "cell_has_date t cell")
    case True
    with Cons.prems show ?thesis by simp
  next
    case False
    with Cons.prems have r: "find_col t cells (k + 1) = Some c" by simp
    from Cons.IH [OF r] have k: "k + 1 \<le> c" and l: "c - (k + 1) < length cells"
      and m: "cell_has_date t (cells ! (c - (k + 1)))"
      and n: "\<forall>j<c - (k + 1). \<not> cell_has_date t (cells ! j)" by auto
    from k have e: "c - k = Suc (c - (k + 1))" by simp
    show ?thesis using k l m n False unfolding e by (auto simp: less_Suc_eq_0_disj)
  qed
qed

text \<open>The scan of \<^verbatim>\<open>row[1:]\<close>, read on the column indices of the row itself.\<close>

lemma row_scan_None:
  "find_col t (drop 1 row) 1 = None \<longleftrightarrow>
     (\<forall>c. 1 \<le> c \<and> c < length row \<longrightarrow> \<not> cell_has_date t (row ! c))"
proof -
  have "(\<forall>j<length (drop 1 row). \<not> cell_has_date t (drop 1 row ! j)) \<longleftrightarrow>
        (\<forall>c. 1 \<le> c \<and> c < length row \<longrightarrow> \<not> cell_has_date t (row ! c))"
  proof
    assume h: "\<forall>j<length (drop 1 row). \<not> cell_has_date t (drop 1 row ! j)"
    show "\<forall>c. 1 \<le> c \<and> c < length row \<longrightarrow> \<not> cell_has_date t (row ! c)"
    proof (intro allI impI)
      fix c assume c: "1 \<le> c \<and> c < length row"
      then have "c - 1 < length (drop 1 row)" by auto
      with h have "\<not> cell_has_date t (drop 1 row ! (c - 1))" by blast
      with c show "\<not> cell_has_date t (row ! c)" by simp
    qed
  next
    assume h: "\<forall>c. 1 \<le> c \<and> c < length row \<longrightarrow> \<not> cell_has_date t (row ! c)"
    show "\<forall>j<length (drop 1 row). \<not> cell_has_date t (drop 1 row ! j)"
    proof (intro allI impI)
      fix j assume j: "j < length (drop 1 row)"
      then have "1 \<le> j + 1 \<and> j + 1 < length row" by simp
      with h have "\<not> cell_has_date t (row ! (j + 1))" by blast
      with j show "\<not> cell_has_date t (drop 1 row ! j)" by simp
    qed
  qed
  then show ?thesis by (simp add: find_col_None)
qed

lemma row_scan_Some:
  assumes "find_col t (drop 1 row) 1 = Some c"
  shows "1 \<le> c \<and> c < length row \<and> cell_has_date t (row ! c) \<and>
         (\<forall>c'. 1 \<le> c' \<and> c' < c \<longrightarrow> \<not> cell_has_date t (row ! c'))"
proof -
  from find_col_Some [OF assms] have k: "1 \<le> c" and l: "c - 1 < length (drop 1 row)"
    and m: "cell_has_date t (drop 1 row ! (c - 1))"
    and n: "\<forall>j<c - 1. \<not> cell_has_date t (drop 1 row ! j)" by auto
  from k l have cl: "c < length row" by simp
  from m k cl have m': "cell_has_date t (row ! c)" by simp
  have "\<forall>c'. 1 \<le> c' \<and> c' < c \<longrightarrow> \<not> cell_has_date t (row ! c')"
  proof (intro allI impI)
    fix c' assume c': "1 \<le> c' \<and> c' < c"
    then have "c' - 1 < c - 1" by arith
    with n have "\<not> cell_has_date t (drop 1 row ! (c' - 1))" by blast
    with c' cl show "\<not> cell_has_date t (row ! c')" by simp
  qed
  with k cl m' show ?thesis by blast
qed

lemma all_from_step:
  "\<not> H i0 \<or> P i0 \<Longrightarrow>
   (\<forall>i. i0 \<le> i \<and> i < n \<and> H i \<longrightarrow> P i) = (\<forall>i. i0 + 1 \<le> i \<and> i < n \<and> H i \<longrightarrow> P i)"
  for i0 :: nat
proof
  assume a: "\<not> H i0 \<or> P i0" and b: "\<forall>i. i0 \<le> i \<and> i < n \<and> H i \<longrightarrow> P i"
  show "\<forall>i. i0 + 1 \<le> i \<and> i < n \<and> H i \<longrightarrow> P i" using b by auto
next
  assume a: "\<not> H i0 \<or> P i0" and b: "\<forall>i. i0 + 1 \<le> i \<and> i < n \<and> H i \<longrightarrow> P i"
  show "\<forall>i. i0 \<le> i \<and> i < n \<and> H i \<longrightarrow> P i"
  proof (intro allI impI)
    fix i assume i: "i0 \<le> i \<and> i < n \<and> H i"
    then have "i = i0 \<or> i0 + 1 \<le> i" by arith
    then show "P i" using a b i by blast
  qed
qed

text \<open>The loop finds nothing exactly when no header-candidate row has the date past column 0.\<close>

lemma find_date_cell_None:
  "find_date_cell av t i0 = None \<longleftrightarrow>
     (\<forall>i. i0 \<le> i \<and> i < length av \<and> header_candidate (av ! i) \<longrightarrow>
          (\<forall>c. 1 \<le> c \<and> c < length (av ! i) \<longrightarrow> \<not> cell_has_date t (av ! i ! c)))"
proof (induction av t i0 rule: find_date_cell.induct)
  case (1 av t i0)
  let ?H = "\<lambda>i. header_candidate (av ! i)"
  let ?P = "\<lambda>i. \<forall>c. 1 \<le> c \<and> c < length (av ! i) \<longrightarrow> \<not> cell_has_date t (av ! i ! c)"
  show ?case
  proof (cases "i0 < length av")
    case False
    then show ?thesis by (subst find_date_cell.simps) auto
  next
    case True
    note lt = True
    show ?thesis
    proof (cases "header_candidate (av ! i0)")
      case False
      with lt have e: "find_date_cell av t i0 = find_date_cell av t (i0 + 1)"
        by (subst find_date_cell.simps) simp
      from False have "\<not> ?H i0 \<or> ?P i0" by blast
      from all_from_step [of ?H i0 ?P "length av", OF this] "1.IH"(2) [OF lt refl False] e
      show ?thesis by simp
    next
      case True
      note hc = True
      show ?thesis
      proof (cases "find_col t (drop 1 (av ! i0)) 1")
        case None
        with lt hc have e: "find_date_cell av t i0 = find_date_cell av t (i0 + 1)"
          by (subst find_date_cell.simps) simp
        from None row_scan_None [of t "av ! i0"] have "\<not> ?H i0 \<or> ?P i0" by blast
        from all_from_step [of ?H i0 ?P "length av", OF this] "1.IH"(1) [OF lt refl hc None] e
        show ?thesis by simp
      next
        case (Some c)
        with lt hc have e: "find_date_cell av t i0 = Some (i0, c)"
          by (subst find_date_cell.simps) simp
        from row_scan_Some [OF Some] have "\<not> ?P i0" by blast
        with lt hc e show ?thesis by auto
      qed
    qed
  qed
qed

text \<open>When the loop breaks, it is at the first header-candidate row whose scan succeeds.\<close>

lemma find_date_cell_Some:
  "find_date_cell av t i0 = Some (i, c) \<Longrightarrow>
     i0 \<le> i \<and> i < length av \<and> header_candidate (av ! i) \<and>
     find_col t (drop 1 (av ! i)) 1 = Some c \<and>
     (\<forall>i'. i0 \<le> i' \<and> i' < i \<and> header_candidate (av ! i') \<longrightarrow> find_col t (drop 1 (av ! i')) 1 = None)"
proof (induction av t i0 rule: find_date_cell.induct)
  case (1 av t i0)
  from "1.prems" have lt: "i0 < length av"
    by (subst (asm) find_date_cell.simps) (simp split: if_splits)
  show ?case
  proof (cases "header_candidate (av ! i0)")
    case False
    with lt "1.prems" have e: "find_date_cell av t (i0 + 1) = Some (i, c)"
      by (subst (asm) find_date_cell.simps) simp
    from "1.IH"(2) [OF lt refl False e] False show ?thesis
      by (auto simp: le_Suc_eq dest: le_neq_implies_less)
  next
    case True
    note hc = True
    show ?thesis
    proof (cases "find_col t (drop 1 (av ! i0)) 1")
      case None
      with lt hc "1.prems" have e: "find_date_cell av t (i0 + 1) = Some (i, c)"
        by (subst (asm) find_date_cell.simps) simp
      have step: "\<And>i'. i0 \<le> i' \<Longrightarrow> i' = i0 \<or> i0 + 1 \<le> i'" by arith
      from "1.IH"(1) [OF lt refl hc None e] None show ?thesis
        using step by (metis add_leD1)
    next
      case (Some c0)
      with lt hc "1.prems" have "i = i0" and "c = c0"
        by (subst (asm) find_date_cell.simps, simp)+
      with Some lt hc show ?thesis by simp
    qed
  qed
qed

text \<open>The position at which the loop breaks, in reading order.\<close>

lemma find_date_cell_first:
  assumes "find_date_cell av t 0 = Some (i, c)"
  shows "i < length av \<and> header_candidate (av ! i) \<and> 1 \<le> c \<and> c < length (av ! i) \<and>
         cell_has_date t (av ! i ! c) \<and>
         (\<forall>c'. 1 \<le> c' \<and> c' < c \<longrightarrow> \<not> cell_has_date t (av ! i ! c')) \<and>
         (\<forall>i' c'. i' < i \<and> header_candidate (av ! i') \<and> 1 \<le> c' \<and> c' < length (av ! i')
                   \<longrightarrow> \<not> cell_has_date t (av ! i' ! c'))"
proof -
  from find_date_cell_Some [OF assms] have i: "i < length av" and h: "header_candidate (av ! i)"
    and f: "find_col t (drop 1 (av ! i)) 1 = Some c"
    and b: "\<forall>i'. i' < i \<and> header_candidate (av ! i') \<longrightarrow> find_col t (drop 1 (av ! i')) 1 = None"
    by auto
  have "\<forall>i' c'. i' < i \<and> header_candidate (av ! i') \<and> 1 \<le> c' \<and> c' < length (av ! i')
                   \<longrightarrow> \<not> cell_has_date t (av ! i' ! c')"
    using b row_scan_None by blast
  with i h row_scan_Some [OF f] show ?thesis by blast
qed

subsection \<open>Claims on the tab candidates\<close>

text \<open>
  The loop over the candidate tabs: it probes the first \<open>k\<close> of them in order, one lookup
  each, with \<open>k\<close> at least 1; the probes before the last fail; if the last succeeds its
  tab is returned, and otherwise every candidate was probed and the answer is None.
\<close>

lemma probe_months_calls:
  assumes "map month_names ms = map Some names" and "names \<noteq> []"
  shows "\<exists>k ext. 1 \<le> k \<and> k \<le> length names \<and>
           snd (probe_months c d ms log) = log @ ext \<and>
           filter is_worksheet_call ext = map Worksheet (take k names) \<and>
           (\<forall>j<k - 1. \<not> fst (probe c d (names ! j) (probe_log c d (take j names) log))) \<and>
           (if fst (probe c d (names ! (k - 1)) (probe_log c d (take (k - 1) names) log))
            then fst (probe_months c d ms log) = Inr (Some (names ! (k - 1)))
            else k = length names \<and> fst (probe_months c d ms log) = Inr None)"
proof -
  from probe_months_char [OF assms(1), of c d log] obtain k0 where k0: "k0 \<le> length names"
    and skipped: "\<forall>j<k0. \<not> fst (probe c d (names ! j) (probe_log c d (take j names) log))"
    and all: "if k0 < length names
            then fst (probe c d (names ! k0) (probe_log c d (take k0 names) log)) \<and>
                 probe_months c d ms log =
                   (Inr (Some (names ! k0)), probe_log c d (take (Suc k0) names) log)
            else probe_months c d ms log = (Inr None, probe_log c d names log)"
    by blast
  show ?thesis
  proof (cases "k0 < length names")
    case True
    with all have found: "fst (probe c d (names ! k0) (probe_log c d (take k0 names) log))"
      and r: "probe_months c d ms log =
                   (Inr (Some (names ! k0)), probe_log c d (take (Suc k0) names) log)"
      by simp_all
    from probe_log_calls [of c d "take (Suc k0) names" log] obtain ext where
      e: "probe_log c d (take (Suc k0) names) log = log @ ext"
      and f: "filter is_worksheet_call ext = map Worksheet (take (Suc k0) names)" by blast
    have "1 \<le> Suc k0 \<and> Suc k0 \<le> length names \<and>
           snd (probe_months c d ms log) = log @ ext \<and>
           filter is_worksheet_call ext = map Worksheet (take (Suc k0) names) \<and>
           (\<forall>j<Suc k0 - 1. \<not> fst (probe c d (names ! j) (probe_log c d (take j names) log))) \<and>
           (if fst (probe c d (names ! (Suc k0 - 1)) (probe_log c d (take (Suc k0 - 1) names) log))
            then fst (probe_months c d ms log) = Inr (Some (names ! (Suc k0 - 1)))
            else Suc k0 = length names \<and> fst (probe_months c d ms log) = Inr None)"
      using True r e f found skipped by simp
    then show ?thesis by blast
  next
    case False
    with k0 have k0_eq: "k0 = length names" by simp
    from False all have r: "probe_months c d ms log = (Inr None, probe_log c d names log)"
      by simp
    from probe_log_calls [of c d names log] obtain ext where
      e: "probe_log c d names log = log @ ext"
      and f: "filter is_worksheet_call ext = map Worksheet names" by blast
    from assms(2) have pos: "0 < length names" by simp
    then have last_lt: "length names - 1 < k0" using k0_eq by simp
    with skipped have nf: "\<not> fst (probe c d (names ! (length names - 1))
        (probe_log c d (take (length names - 1) names) log))" by blast
    have sk: "\<forall>j<length names - 1. \<not> fst (probe c d (names ! j) (probe_log c d (take j names) log))"
      using skipped k0_eq by simp
    have "1 \<le> length names \<and> length names \<le> length names \<and>
           snd (probe_months c d ms log) = log @ ext \<and>
           filter is_worksheet_call ext = map Worksheet (take (length names) names) \<and>
           (\<forall>j<length names - 1. \<not> fst (probe c d (names ! j) (probe_log c d (take j names) log))) \<and>
           (if fst (probe c d (names ! (length names - 1)) (probe_log c d (take (length names - 1) names) log))
            then fst (probe_months c d ms log) = Inr (Some (names ! (length names - 1)))
            else length names = length names \<and> fst (probe_months c d ms log) = Inr None)"
      using pos r e f nf sk by (simp add: Suc_le_eq)
    then show ?thesis by blast
  qed
qed

text \<open>
  C4: for every date, the months to check give one to three tab names; the target month's
  tab is among them; when the day is at most 7 the previous month's tab comes first and
  the target month's tab second; on 5 March the names are Fevrier, Mars; and the loop
  probes the candidates in exactly the order of the list: it looks up the first \<open>k\<close>
  names, \<open>k\<close> at least 1, one after the other and nothing else, stops at the first probe
  that succeeds and returns its tab, and goes through the whole list when none does.
\<close>

theorem tab_candidates:
  assumes "valid_date d"
  shows "\<exists>names. map month_names (months_to_check d) = map Some names \<and>
           1 \<le> length names \<and> length names \<le> 3 \<and>
           month_names (month d) \<in> set (map Some names) \<and>
           (day d \<le> 7 \<longrightarrow>
              map Some names =
                [month_names (if month d > 1 then month d - 1 else 12), month_names (month d)]) \<and>
           (month d = 3 \<and> day d = 5 \<longrightarrow> names = [''Fevrier'', ''Mars'']) \<and>
           (\<forall>c log. \<exists>k ext. 1 \<le> k \<and> k \<le> length names \<and>
              snd (probe_months c d (months_to_check d) log) = log @ ext \<and>
              filter is_worksheet_call ext = map Worksheet (take k names) \<and>
              (\<forall>j<k - 1. \<not> fst (probe c d (names ! j) (probe_log c d (take j names) log))) \<and>
              (if fst (probe c d (names ! (k - 1)) (probe_log c d (take (k - 1) names) log))
               then fst (probe_months c d (months_to_check d) log) = Inr (Some (names ! (k - 1)))
               else k = length names \<and>
                    fst (probe_months c d (months_to_check d) log) = Inr None))"
proof -
  from months_to_check_names [OF assms] obtain names where
    n: "map month_names (months_to_check d) = map Some names" by blast
  note cases = months_to_check_cases [OF assms]
  have len: "length names = length (months_to_check d)"
    using n by (metis length_map)
  have l1: "1 \<le> length names \<and> length names \<le> 3"
    unfolding len cases by simp
  then have ne: "names \<noteq> []" by auto
  have "month d \<in> set (months_to_check d)"
    unfolding cases by simp
  then have "month_names (month d) \<in> set (map month_names (months_to_check d))"
    by simp
  then have l2: "month_names (month d) \<in> set (map Some names)"
    unfolding n .
  have l3: "day d \<le> 7 \<longrightarrow>
      map Some names = [month_names (if month d > 1 then month d - 1 else 12), month_names (month d)]"
    using n unfolding cases by auto
  have l4: "month d = 3 \<and> day d = 5 \<longrightarrow> names = [''Fevrier'', ''Mars'']"
  proof
    assume a: "month d = 3 \<and> day d = 5"
    then have "months_to_check d = [2, 3]" unfolding cases by simp
    with n have "map Some names = [Some ''Fevrier'', Some ''Mars'']"
      by (simp add: month_names_def)
    then show "names = [''Fevrier'', ''Mars'']" by auto
  qed
  have l5: "\<forall>c log. \<exists>k ext. 1 \<le> k \<and> k \<le> length names \<and>
              snd (probe_months c d (months_to_check d) log) = log @ ext \<and>
              filter is_worksheet_call ext = map Worksheet (take k names) \<and>
              (\<forall>j<k - 1. \<not> fst (probe c d (names ! j) (probe_log c d (take j names) log))) \<and>
              (if fst (probe c d (names ! (k - 1)) (probe_log c d (take (k - 1) names) log))
               then fst (probe_months c d (months_to_check d) log) = Inr (Some (names ! (k - 1)))
               else k = length names \<and>
                    fst (probe_months c d (months_to_check d) log) = Inr None)"
    using probe_months_calls [OF n ne] by blast
  show ?thesis
    by (rule exI [of _ names]) (intro conjI n l2 l3 l4 l5 conjunct1 [OF l1] conjunct2 [OF l1])
qed

theorem tab_candidates_witness:
  "valid_date march_5 \<and>
   map month_names (months_to_check march_5) = map Some [''Fevrier'', ''Mars''] \<and>
   fst (probe_months sheets_mars march_5 (months_to_check march_5) []) = Inr None \<and>
   filter is_worksheet_call (snd (probe_months sheets_mars march_5 (months_to_check march_5) [])) =
     [Worksheet ''Fevrier'', Worksheet ''Mars'']"
proof -
  have v: "valid_date march_5" by code_simp
  from tab_candidates [OF v] obtain names where
    n: "map month_names (months_to_check march_5) = map Some names"
    and m: "month march_5 = 3 \<and> day march_5 = 5 \<longrightarrow> names = [''Fevrier'', ''Mars'']"
    and p: "\<forall>c log. \<exists>k ext. 1 \<le> k \<and> k \<le> length names \<and>
              snd (probe_months c march_5 (months_to_check march_5) log) = log @ ext \<and>
              filter is_worksheet_call ext = map Worksheet (take k names) \<and>
              (\<forall>j<k - 1. \<not> fst (probe c march_5 (names ! j) (probe_log c march_5 (take j names) log))) \<and>
              (if fst (probe c march_5 (names ! (k - 1)) (probe_log c march_5 (take (k - 1) names) log))
               then fst (probe_months c march_5 (months_to_check march_5) log) = Inr (Some (names ! (k - 1)))
               else k = length names \<and>
                    fst (probe_months c march_5 (months_to_check march_5) log) = Inr None)"
    by blast
  have "month march_5 = 3 \<and> day march_5 = 5" by (simp add: march_5_def)
  with m have names: "names = [''Fevrier'', ''Mars'']" by simp
  have none: "fst (probe_months sheets_mars march_5 (months_to_check march_5) []) = Inr None"
    by code_simp
  from p obtain k ext where
    s: "snd (probe_months sheets_mars march_5 (months_to_check march_5) []) = [] @ ext"
    and f: "filter is_worksheet_call ext = map Worksheet (take k names)"
    and r: "if fst (probe sheets_mars march_5 (names ! (k - 1))
                 (probe_log sheets_mars march_5 (take (k - 1) names) []))
            then fst (probe_months sheets_mars march_5 (months_to_check march_5) []) =
                   Inr (Some (names ! (k - 1)))
            else k = length names \<and>
                 fst (probe_months sheets_mars march_5 (months_to_check march_5) []) = Inr None"
    by blast
  from r none have "k = length names" by (simp split: if_splits)
  with f names have "filter is_worksheet_call ext = [Worksheet ''Fevrier'', Worksheet ''Mars'']"
    by simp
  with s have "filter is_worksheet_call
      (snd (probe_months sheets_mars march_5 (months_to_check march_5) [])) =
     [Worksheet ''Fevrier'', Worksheet ''Mars'']" by simp
  with v n names none show ?thesis by simp
qed

text \<open>
  C7: every month from 1 to 12 has a tab name and no two of them share one; for a December
  date from day 24 on (31 - 7) the month appended is 1, whose tab is Janvier; for a
  January date up to day 7 the month put first is 12, whose tab is Decembre.
\<close>

theorem month_names_wrap:
  "(\<forall>m\<in>{1..12}. \<exists>n. month_names m = Some n) \<and> inj_on month_names {1..12} \<and>
   (month d = 12 \<and> day d \<ge> 31 - 7 \<longrightarrow>
      months_to_check d = [12, 1] \<and> month_names (last (months_to_check d)) = Some ''Janvier'') \<and>
   (month d = 1 \<and> day d \<le> 7 \<longrightarrow>
      months_to_check d = [12, 1] \<and> month_names (hd (months_to_check d)) = Some ''Decembre'')"
proof -
  have a: "\<forall>m\<in>{1..12}. \<exists>n. month_names m = Some n"
    using month_names_Some by simp
  have b: "month d = 12 \<and> day d \<ge> 31 - 7 \<longrightarrow>
      months_to_check d = [12, 1] \<and> month_names (last (months_to_check d)) = Some ''Janvier''"
    by (simp add: months_to_check_def month_names_def)
  have c: "month d = 1 \<and> day d \<le> 7 \<longrightarrow>
      months_to_check d = [12, 1] \<and> month_names (hd (months_to_check d)) = Some ''Decembre''"
    by (simp add: months_to_check_def month_length_def month_names_def)
  from a month_names_inj b c show ?thesis by blast
qed

theorem month_names_wrap_witness:
  "month_names (last (months_to_check december_28)) = Some ''Janvier'' \<and>
   month_names (hd (months_to_check january_3)) = Some ''Decembre''"
proof -
  have "month december_28 = 12 \<and> day december_28 \<ge> 31 - 7" by (simp add: december_28_def)
  moreover have "month january_3 = 1 \<and> day january_3 \<le> 7" by (simp add: january_3_def)
  ultimately show ?thesis
    using month_names_wrap [of december_28] month_names_wrap [of january_3] by blast
qed

subsection \<open>Claims on the extraction scan\<close>

text \<open>
  C8: on the grid of the scenario, the scan for 30/06 writes Pates and Soupe, and the scan
  for 01/07 writes Riz and Salade; these are the renderings of 30 June and 1 July.
\<close>

theorem scenario_extraction:
  "extract_menu scenario_grid ''30/06'' = Some \<lparr>midi = ''Pates'', soir = ''Soupe''\<rparr> \<and>
   extract_menu scenario_grid ''01/07'' = Some \<lparr>midi = ''Riz'', soir = ''Salade''\<rparr> \<and>
   strftime_dm \<lparr>year = 2025, month = 6, day = 30\<rparr> = ''30/06'' \<and>
   strftime_dm \<lparr>year = 2025, month = 7, day = 1\<rparr> = ''01/07''"
proof -
  have a: "extract_menu scenario_grid ''30/06'' = Some \<lparr>midi = ''Pates'', soir = ''Soupe''\<rparr>"
    by code_simp
  have b: "extract_menu scenario_grid ''01/07'' = Some \<lparr>midi = ''Riz'', soir = ''Salade''\<rparr>"
    by code_simp
  have c: "strftime_dm \<lparr>year = 2025, month = 6, day = 30\<rparr> = ''30/06''"
    by code_simp
  have d: "strftime_dm \<lparr>year = 2025, month = 7, day = 1\<rparr> = ''01/07''"
    by code_simp
  from a b c d show ?thesis by blast
qed

text \<open>
  C5, as stated: in row 0 of the grid below, the cell of column 1 has the target 30/06 as
  its last white-space separated token, yet the stripped cell has a single part, the
  cell test fails, and the loop breaks at column 2: the entry is read under column 2.
\<close>

theorem leading_space_counterexample:
  "header_candidate (leading_space_grid ! 0) \<and>
   leading_space_grid ! 0 ! 1 = '' 30/06'' \<and>
   last_whitespace_token (leading_space_grid ! 0 ! 1) = Some ''30/06'' \<and>
   cell_has_date ''30/06'' (leading_space_grid ! 0 ! 1) = False \<and>
   find_date_cell leading_space_grid ''30/06'' 0 = Some (0, 2) \<and>
   extract_menu leading_space_grid ''30/06'' = Some \<lparr>midi = ''B'', soir = ''D''\<rparr>"
proof -
  have a: "header_candidate (leading_space_grid ! 0)" by code_simp
  have b: "leading_space_grid ! 0 ! 1 = '' 30/06''" by code_simp
  have c: "last_whitespace_token (leading_space_grid ! 0 ! 1) = Some ''30/06''" by code_simp
  have d: "cell_has_date ''30/06'' (leading_space_grid ! 0 ! 1) = False" by code_simp
  have e: "find_date_cell leading_space_grid ''30/06'' 0 = Some (0, 2)" by code_simp
  have f: "extract_menu leading_space_grid ''30/06'' = Some \<lparr>midi = ''B'', soir = ''D''\<rparr>"
    by code_simp
  from a b c d e f show ?thesis by blast
qed

text \<open>
  C5, amended: a cell passes the cell test when it is not empty, contains a space, and its
  stripped text, split at single spaces, has at least two parts of which the last is the
  target text. The scan writes an entry exactly when some header-candidate row (more than
  one cell, first cell of white space only) has a cell past column 0 that passes the
  test; the entry is read at the cell where the loop breaks, which is the leftmost such
  cell of its row and lies in the topmost header-candidate row that has one. A cell made
  of a word, a space and a token passes the test exactly when the token is the target;
  and for a target free of white space, every cell that passes the test has the target
  as its last white-space separated token.
\<close>

theorem first_match_in_reading_order:
  "(extract_menu av t = None \<longleftrightarrow>
      (\<forall>i c. i < length av \<and> header_candidate (av ! i) \<and> 1 \<le> c \<and> c < length (av ! i)
             \<longrightarrow> \<not> cell_has_date t (av ! i ! c))) \<and>
   (\<forall>e. extract_menu av t = Some e \<longrightarrow>
      (\<exists>i c. find_date_cell av t 0 = Some (i, c) \<and> e = read_entry av i c \<and>
             i < length av \<and> header_candidate (av ! i) \<and> 1 \<le> c \<and> c < length (av ! i) \<and>
             cell_has_date t (av ! i ! c) \<and>
             (\<forall>c'. 1 \<le> c' \<and> c' < c \<longrightarrow> \<not> cell_has_date t (av ! i ! c')) \<and>
             (\<forall>i' c'. i' < i \<and> header_candidate (av ! i') \<and> 1 \<le> c' \<and> c' < length (av ! i')
                      \<longrightarrow> \<not> cell_has_date t (av ! i' ! c')))) \<and>
   (\<forall>w t'. w \<noteq> [] \<and> (\<forall>ch\<in>set w. \<not> isspace ch) \<and> t' \<noteq> [] \<and> (\<forall>ch\<in>set t'. \<not> isspace ch)
      \<longrightarrow> (cell_has_date t (w @ '' '' @ t') \<longleftrightarrow> t' = t)) \<and>
   (\<forall>cell. cell_has_date t cell \<longleftrightarrow>
      cell \<noteq> [] \<and> CHR '' '' \<in> set cell \<and> 2 \<le> length (split_space (strip cell)) \<and>
      last (split_space (strip cell)) = t) \<and>
   (\<forall>row. header_candidate row \<longleftrightarrow> 1 < length row \<and> (\<forall>ch\<in>set (row ! 0). isspace ch)) \<and>
   (t \<noteq> [] \<and> (\<forall>ch\<in>set t. \<not> isspace ch) \<longrightarrow>
      (\<forall>cell. cell_has_date t cell \<longrightarrow> last_whitespace_token cell = Some t))"
proof -
  have "extract_menu av t = None \<longleftrightarrow> find_date_cell av t 0 = None"
    by (simp add: extract_menu_def split: option.splits)
  then have a: "extract_menu av t = None \<longleftrightarrow>
      (\<forall>i c. i < length av \<and> header_candidate (av ! i) \<and> 1 \<le> c \<and> c < length (av ! i)
             \<longrightarrow> \<not> cell_has_date t (av ! i ! c))"
    using find_date_cell_None [of av t 0] by auto
  have b: "\<forall>e. extract_menu av t = Some e \<longrightarrow>
      (\<exists>i c. find_date_cell av t 0 = Some (i, c) \<and> e = read_entry av i c \<and>
             i < length av \<and> header_candidate (av ! i) \<and> 1 \<le> c \<and> c < length (av ! i) \<and>
             cell_has_date t (av ! i ! c) \<and>
             (\<forall>c'. 1 \<le> c' \<and> c' < c \<longrightarrow> \<not> cell_has_date t (av ! i ! c')) \<and>
             (\<forall>i' c'. i' < i \<and> header_candidate (av ! i') \<and> 1 \<le> c' \<and> c' < length (av ! i')
                      \<longrightarrow> \<not> cell_has_date t (av ! i' ! c')))"
  proof (intro allI impI)
    fix e assume "extract_menu av t = Some e"
    then obtain i c where f: "find_date_cell av t 0 = Some (i, c)" and e: "e = read_entry av i c"
      by (auto simp: extract_menu_def split: option.splits)
    from find_date_cell_first [OF f] f e
    show "\<exists>i c. find_date_cell av t 0 = Some (i, c) \<and> e = read_entry av i c \<and>
             i < length av \<and> header_candidate (av ! i) \<and> 1 \<le> c \<and> c < length (av ! i) \<and>
             cell_has_date t (av ! i ! c) \<and>
             (\<forall>c'. 1 \<le> c' \<and> c' < c \<longrightarrow> \<not> cell_has_date t (av ! i ! c')) \<and>
             (\<forall>i' c'. i' < i \<and> header_candidate (av ! i') \<and> 1 \<le> c' \<and> c' < length (av ! i')
                      \<longrightarrow> \<not> cell_has_date t (av ! i' ! c'))"
      by blast
  qed
  have c: "\<forall>w t'. w \<noteq> [] \<and> (\<forall>ch\<in>set w. \<not> isspace ch) \<and> t' \<noteq> [] \<and> (\<forall>ch\<in>set t'. \<not> isspace ch)
      \<longrightarrow> (cell_has_date t (w @ '' '' @ t') \<longleftrightarrow> t' = t)"
  proof (intro allI impI)
    fix w t'
    assume "w \<noteq> [] \<and> (\<forall>ch\<in>set w. \<not> isspace ch) \<and> t' \<noteq> [] \<and> (\<forall>ch\<in>set t'. \<not> isspace ch)"
    then have "date_part (w @ '' '' @ t') = Some t'" using word_space_token by blast
    then show "cell_has_date t (w @ '' '' @ t') \<longleftrightarrow> t' = t" by (simp add: cell_has_date_def)
  qed
  have d: "\<forall>cell. cell_has_date t cell \<longleftrightarrow>
      cell \<noteq> [] \<and> CHR '' '' \<in> set cell \<and> 2 \<le> length (split_space (strip cell)) \<and>
      last (split_space (strip cell)) = t"
    using cell_has_date_iff by blast
  have e: "\<forall>row. header_candidate row \<longleftrightarrow> 1 < length row \<and> (\<forall>ch\<in>set (row ! 0). isspace ch)"
    using header_candidate_iff by blast
  have f: "t \<noteq> [] \<and> (\<forall>ch\<in>set t. \<not> isspace ch) \<longrightarrow>
      (\<forall>cell. cell_has_date t cell \<longrightarrow> last_whitespace_token cell = Some t)"
    using cell_has_date_token by blast
  show ?thesis by (intro conjI a b c d e f)
qed

theorem first_match_in_reading_order_witness:
  "\<exists>i c. find_date_cell scenario_grid ''01/07'' 0 = Some (i, c) \<and>
         read_entry scenario_grid i c = \<lparr>midi = ''Riz'', soir = ''Salade''\<rparr> \<and>
         cell_has_date ''01/07'' (scenario_grid ! i ! c) \<and>
         (\<forall>c'. 1 \<le> c' \<and> c' < c \<longrightarrow> \<not> cell_has_date ''01/07'' (scenario_grid ! i ! c'))"
proof -
  have e: "extract_menu scenario_grid ''01/07'' = Some \<lparr>midi = ''Riz'', soir = ''Salade''\<rparr>"
    by code_simp
  note found = conjunct1 [OF conjunct2 [OF first_match_in_reading_order [of scenario_grid "''01/07''"]]]
  from found e
  obtain i c where "find_date_cell scenario_grid ''01/07'' 0 = Some (i, c)"
    and "\<lparr>midi = ''Riz'', soir = ''Salade''\<rparr> = read_entry scenario_grid i c"
    and "cell_has_date ''01/07'' (scenario_grid ! i ! c)"
    and "\<forall>c'. 1 \<le> c' \<and> c' < c \<longrightarrow> \<not> cell_has_date ''01/07'' (scenario_grid ! i ! c')"
    by blast
  then show ?thesis by metis
qed

text \<open>
  C9: when the loop breaks at row \<open>i\<close>, column \<open>c\<close>, the lunch text is the stripped cell
  of row \<open>i + 1\<close>, column \<open>c\<close> if that row exists, is longer than \<open>c\<close> and has the label
  midi in column 0, and is empty otherwise; the dinner text is read in the same way from
  row \<open>i + 2\<close> under the label soir; an entry is written in every case, with both
  fields empty when neither row qualifies.
\<close>

theorem label_rows:
  assumes "find_date_cell av t 0 = Some (i, c)"
  shows "extract_menu av t =
           Some \<lparr>midi = (if i + 1 < length av \<and> c < length (av ! (i + 1)) \<and>
                            lower (strip (av ! (i + 1) ! 0)) = ''midi''
                         then strip (av ! (i + 1) ! c) else []),
                 soir = (if i + 2 < length av \<and> c < length (av ! (i + 2)) \<and>
                            lower (strip (av ! (i + 2) ! 0)) = ''soir''
                         then strip (av ! (i + 2) ! c) else [])\<rparr> \<and>
         (\<not> (i + 1 < length av \<and> c < length (av ! (i + 1)) \<and>
              lower (strip (av ! (i + 1) ! 0)) = ''midi'') \<and>
          \<not> (i + 2 < length av \<and> c < length (av ! (i + 2)) \<and>
              lower (strip (av ! (i + 2) ! 0)) = ''soir'')
          \<longrightarrow> extract_menu av t = Some \<lparr>midi = [], soir = []\<rparr>)"
  using assms by (simp add: extract_menu_def read_entry_def Let_def)

theorem label_rows_witness:
  "find_date_cell bare_date_grid ''10/03'' 0 = Some (0, 1) \<and>
   extract_menu bare_date_grid ''10/03'' = Some \<lparr>midi = [], soir = []\<rparr>"
proof -
  have f: "find_date_cell bare_date_grid ''10/03'' 0 = Some (0, 1)" by code_simp
  have "\<not> (0 + 1 < length bare_date_grid) \<and> \<not> (0 + 2 < length bare_date_grid)"
    by (simp add: bare_date_grid_def)
  with label_rows [OF f] f show ?thesis by simp
qed

text \<open>
  C10: whenever the extraction scan writes an entry for a date, the existence check on
  the same grid answers True; the converse fails for a date cell in column 0 and for a
  date cell in a row whose first cell is not blank, and with such a grid a date resolves
  to its tab and the batch result has no entry for it.
\<close>

theorem existence_check_more_permissive:
  "(extract_menu av t \<noteq> None \<longrightarrow> date_in_values av t) \<and>
   (get_all_values_r c log ws = Some av \<and> extract_menu av (strftime_dm d) \<noteq> None
      \<longrightarrow> fst (date_exists_in_sheet c ws d log)) \<and>
   date_in_values column0_grid ''10/03'' \<and> extract_menu column0_grid ''10/03'' = None \<and>
   date_in_values labelled_row_grid ''10/03'' \<and> extract_menu labelled_row_grid ''10/03'' = None \<and>
   fst (determine_sheet_for_date sheets_column0 march_10 []) = Inr (Some ''Mars'') \<and>
   fst (get_menus_for_dates sheets_column0 [march_10] []) = Inr []"
proof -
  have a: "extract_menu g s \<noteq> None \<longrightarrow> date_in_values g s" for g s
  proof
    assume "extract_menu g s \<noteq> None"
    then obtain i k where "find_date_cell g s 0 = Some (i, k)"
      by (auto simp: extract_menu_def split: option.splits)
    from find_date_cell_first [OF this] have i: "i < length g" and k: "k < length (g ! i)"
      and m: "cell_has_date s (g ! i ! k)" by auto
    from i have "g ! i \<in> set g" by simp
    moreover from k have "g ! i ! k \<in> set (g ! i)" by simp
    ultimately show "date_in_values g s"
      using m by (auto simp: date_in_values_def list_ex_iff)
  qed
  have b: "get_all_values_r c log ws = Some av \<and> extract_menu av (strftime_dm d) \<noteq> None
      \<longrightarrow> fst (date_exists_in_sheet c ws d log)"
    using a [of av "strftime_dm d"] by (auto simp: date_exists_in_sheet_def)
  have e1: "date_in_values column0_grid ''10/03''" by code_simp
  have e2: "extract_menu column0_grid ''10/03'' = None" by code_simp
  have e3: "date_in_values labelled_row_grid ''10/03''" by code_simp
  have e4: "extract_menu labelled_row_grid ''10/03'' = None" by code_simp
  have e5: "fst (determine_sheet_for_date sheets_column0 march_10 []) = Inr (Some ''Mars'')"
    by code_simp
  have e6: "fst (get_menus_for_dates sheets_column0 [march_10] []) = Inr []"
    by code_simp
  from a [of av t] b e1 e2 e3 e4 e5 e6 show ?thesis by blast
qed

theorem existence_check_more_permissive_witness:
  "extract_menu scenario_grid ''30/06'' \<noteq> None \<and> date_in_values scenario_grid ''30/06''"
proof -
  have e: "extract_menu scenario_grid ''30/06'' \<noteq> None" by code_simp
  with existence_check_more_permissive [of scenario_grid "''30/06''"] show ?thesis by blast
qed

subsection \<open>The tab resolver\<close>

text \<open>Once the spreadsheet is open, the resolver's answer is that of the probing loop.\<close>

lemma determine_sheet_char:
  assumes "valid_date d" and "open_by_key_r c log"
  shows "\<exists>names. map month_names (months_to_check d) = map Some names \<and>
     (\<exists>k\<le>length names.
        (\<forall>j<k. \<not> fst (probe c d (names ! j) (probe_log c d (take j names) (log @ [OpenByKey])))) \<and>
        (if k < length names
         then fst (probe c d (names ! k) (probe_log c d (take k names) (log @ [OpenByKey]))) \<and>
              determine_sheet_for_date c d log =
                (Inr (Some (names ! k)), probe_log c d (take (Suc k) names) (log @ [OpenByKey]))
         else determine_sheet_for_date c d log =
                (Inr None, list_worksheets c (probe_log c d names (log @ [OpenByKey])))))"
proof -
  from months_to_check_names [OF assms(1)] obtain names where
    n: "map month_names (months_to_check d) = map Some names" by blast
  let ?l0 = "log @ [OpenByKey]"
  from probe_months_char [OF n, of c d ?l0] obtain k where k: "k \<le> length names"
    and skipped: "\<forall>j<k. \<not> fst (probe c d (names ! j) (probe_log c d (take j names) ?l0))"
    and stop: "if k < length names
            then fst (probe c d (names ! k) (probe_log c d (take k names) ?l0)) \<and>
                 probe_months c d (months_to_check d) ?l0 =
                   (Inr (Some (names ! k)), probe_log c d (take (Suc k) names) ?l0)
            else probe_months c d (months_to_check d) ?l0 = (Inr None, probe_log c d names ?l0)"
    by blast
  have "if k < length names
         then fst (probe c d (names ! k) (probe_log c d (take k names) ?l0)) \<and>
              determine_sheet_for_date c d log =
                (Inr (Some (names ! k)), probe_log c d (take (Suc k) names) ?l0)
         else determine_sheet_for_date c d log =
                (Inr None, list_worksheets c (probe_log c d names ?l0))"
    using stop assms(2) by (simp add: determine_sheet_for_date_def split: if_splits)
  with n k skipped show ?thesis by blast
qed

text \<open>
  C6, as stated: for 5 March the candidates are Fevrier, then Mars. The grid of Fevrier
  holds a cell whose last white-space separated token is the date's rendering, with only
  a space before it; the cell test fails on it, the probe of Fevrier fails, and the
  resolver returns Mars.
\<close>

theorem trailing_token_counterexample:
  "map month_names (months_to_check march_5) = [Some ''Fevrier'', Some ''Mars''] \<and>
   worksheet_r sheets_leading_space [OpenByKey] ''Fevrier'' = WsOk \<and>
   get_all_values_r sheets_leading_space [OpenByKey, Worksheet ''Fevrier''] ''Fevrier'' =
     Some [['''', '' 05/03'']] \<and>
   last_whitespace_token '' 05/03'' = Some (strftime_dm march_5) \<and>
   fst (probe sheets_leading_space march_5 ''Fevrier'' [OpenByKey]) = False \<and>
   fst (determine_sheet_for_date sheets_leading_space march_5 []) = Inr (Some ''Mars'')"
proof -
  have a: "map month_names (months_to_check march_5) = [Some ''Fevrier'', Some ''Mars'']"
    by code_simp
  have b: "worksheet_r sheets_leading_space [OpenByKey] ''Fevrier'' = WsOk" by code_simp
  have c: "get_all_values_r sheets_leading_space [OpenByKey, Worksheet ''Fevrier''] ''Fevrier'' =
     Some [['''', '' 05/03'']]" by code_simp
  have d: "last_whitespace_token '' 05/03'' = Some (strftime_dm march_5)" by code_simp
  have e: "fst (probe sheets_leading_space march_5 ''Fevrier'' [OpenByKey]) = False" by code_simp
  have f: "fst (determine_sheet_for_date sheets_leading_space march_5 []) = Inr (Some ''Mars'')"
    by code_simp
  from a b c d e f show ?thesis by blast
qed

text \<open>
  C6, amended: for every date, once the spreadsheet is open, the resolver probes the
  candidate tabs in order, each probe starting from the log left by the earlier ones; it
  never raises; it returns the first tab whose probe succeeds, and None when no probe
  does. A probe looks the tab up and, if the tab exists, fetches its grid; it succeeds
  exactly when the tab exists, the fetch returns a grid, and some cell of the grid is
  not empty, contains a space, and has a stripped text that splits at single spaces into
  at least two parts of which the last is the date's rendering. A missing tab, a failing
  lookup and a failing fetch are failed probes. The grid of a successful probe holds a
  cell whose last white-space separated token is the rendering.
\<close>

theorem tab_resolver:
  assumes "valid_date d" and "open_by_key_r c log"
  shows "\<exists>names. map month_names (months_to_check d) = map Some names \<and>
     (\<exists>k\<le>length names.
        (\<forall>j<k. \<not> fst (probe c d (names ! j) (probe_log c d (take j names) (log @ [OpenByKey])))) \<and>
        (if k < length names
         then fst (probe c d (names ! k) (probe_log c d (take k names) (log @ [OpenByKey]))) \<and>
              fst (determine_sheet_for_date c d log) = Inr (Some (names ! k))
         else fst (determine_sheet_for_date c d log) = Inr None)) \<and>
     (\<forall>n l. fst (probe c d n l) \<longleftrightarrow>
        worksheet_r c l n = WsOk \<and>
        (\<exists>g. get_all_values_r c (l @ [Worksheet n]) n = Some g \<and>
             (\<exists>row\<in>set g. \<exists>cell\<in>set row.
                cell \<noteq> [] \<and> CHR '' '' \<in> set cell \<and>
                2 \<le> length (split_space (strip cell)) \<and>
                last (split_space (strip cell)) = strftime_dm d))) \<and>
     (\<forall>n l. snd (probe c d n l) =
        (if worksheet_r c l n = WsOk then l @ [Worksheet n, GetAllValues n]
         else l @ [Worksheet n])) \<and>
     (\<forall>n l. fst (probe c d n l) \<longrightarrow>
        (\<exists>g. get_all_values_r c (l @ [Worksheet n]) n = Some g \<and>
             (\<exists>row\<in>set g. \<exists>cell\<in>set row.
                last_whitespace_token cell = Some (strftime_dm d))))"
proof -
  from determine_sheet_char [OF assms] obtain names k where
    n: "map month_names (months_to_check d) = map Some names" and k: "k \<le> length names"
    and skipped: "\<forall>j<k. \<not> fst (probe c d (names ! j) (probe_log c d (take j names) (log @ [OpenByKey])))"
    and stop: "if k < length names
         then fst (probe c d (names ! k) (probe_log c d (take k names) (log @ [OpenByKey]))) \<and>
              determine_sheet_for_date c d log =
                (Inr (Some (names ! k)), probe_log c d (take (Suc k) names) (log @ [OpenByKey]))
         else determine_sheet_for_date c d log =
                (Inr None, list_worksheets c (probe_log c d names (log @ [OpenByKey])))"
    by blast
  from stop have stop': "if k < length names
         then fst (probe c d (names ! k) (probe_log c d (take k names) (log @ [OpenByKey]))) \<and>
              fst (determine_sheet_for_date c d log) = Inr (Some (names ! k))
         else fst (determine_sheet_for_date c d log) = Inr None"
    by (simp split: if_splits)
  from k skipped stop' have loop: "\<exists>k\<le>length names.
        (\<forall>j<k. \<not> fst (probe c d (names ! j) (probe_log c d (take j names) (log @ [OpenByKey])))) \<and>
        (if k < length names
         then fst (probe c d (names ! k) (probe_log c d (take k names) (log @ [OpenByKey]))) \<and>
              fst (determine_sheet_for_date c d log) = Inr (Some (names ! k))
         else fst (determine_sheet_for_date c d log) = Inr None)"
    by blast
  have p: "\<forall>n l. fst (probe c d n l) \<longleftrightarrow>
        worksheet_r c l n = WsOk \<and>
        (\<exists>g. get_all_values_r c (l @ [Worksheet n]) n = Some g \<and>
             (\<exists>row\<in>set g. \<exists>cell\<in>set row.
                cell \<noteq> [] \<and> CHR '' '' \<in> set cell \<and>
                2 \<le> length (split_space (strip cell)) \<and>
                last (split_space (strip cell)) = strftime_dm d))"
    unfolding probe_succeeds_iff date_in_values_iff by blast
  have q: "\<forall>n l. snd (probe c d n l) =
        (if worksheet_r c l n = WsOk then l @ [Worksheet n, GetAllValues n]
         else l @ [Worksheet n])"
    by (simp add: probe_def date_exists_in_sheet_def split: ws_lookup.splits option.splits)
  have s: "\<forall>n l. fst (probe c d n l) \<longrightarrow>
        (\<exists>g. get_all_values_r c (l @ [Worksheet n]) n = Some g \<and>
             (\<exists>row\<in>set g. \<exists>cell\<in>set row.
                last_whitespace_token cell = Some (strftime_dm d)))"
  proof (intro allI impI)
    fix n l assume "fst (probe c d n l)"
    then obtain g where g: "get_all_values_r c (l @ [Worksheet n]) n = Some g"
      and "date_in_values g (strftime_dm d)"
      unfolding probe_succeeds_iff by blast
    then obtain row cell where rc: "row \<in> set g" "cell \<in> set row"
      and m: "cell_has_date (strftime_dm d) cell"
      by (auto simp: date_in_values_def list_ex_iff)
    from strftime_dm_plain [of d] m have "last_whitespace_token cell = Some (strftime_dm d)"
      using cell_has_date_token by blast
    with g rc show "\<exists>g. get_all_values_r c (l @ [Worksheet n]) n = Some g \<and>
             (\<exists>row\<in>set g. \<exists>cell\<in>set row.
                last_whitespace_token cell = Some (strftime_dm d))"
      by blast
  qed
  show ?thesis by (rule exI [of _ names]) (intro conjI n loop p q s)
qed

theorem tab_resolver_witness:
  "valid_date march_10 \<and> open_by_key_r sheets_mars [] \<and>
   fst (determine_sheet_for_date sheets_mars march_10 []) = Inr (Some ''Mars'')"
proof -
  have v: "valid_date march_10" by code_simp
  have o: "open_by_key_r sheets_mars []" by code_simp
  from tab_resolver [OF v o] obtain names k where
    n: "map month_names (months_to_check march_10) = map Some names" and k: "k \<le> length names"
    and skipped: "\<forall>j<k. \<not> fst (probe sheets_mars march_10 (names ! j)
                    (probe_log sheets_mars march_10 (take j names) ([] @ [OpenByKey])))"
    and stop: "if k < length names
         then fst (probe sheets_mars march_10 (names ! k)
                    (probe_log sheets_mars march_10 (take k names) ([] @ [OpenByKey]))) \<and>
              fst (determine_sheet_for_date sheets_mars march_10 []) = Inr (Some (names ! k))
         else fst (determine_sheet_for_date sheets_mars march_10 []) = Inr None"
    by blast
  have "map month_names (months_to_check march_10) = [Some ''Mars'']" by code_simp
  with n have names: "names = [''Mars'']" by auto
  have found: "fst (probe sheets_mars march_10 ''Mars'' [OpenByKey])" by code_simp
  have "k = 0"
  proof (rule ccontr)
    assume "k \<noteq> 0"
    then have "0 < k" by simp
    with skipped have "\<not> fst (probe sheets_mars march_10 (names ! 0)
                    (probe_log sheets_mars march_10 (take 0 names) ([] @ [OpenByKey])))"
      by blast
    with found show False by (simp add: names probe_log_Nil)
  qed
  with stop names have "fst (determine_sheet_for_date sheets_mars march_10 []) = Inr (Some ''Mars'')"
    by simp
  with v o show ?thesis by blast
qed

subsection \<open>Groups of dates\<close>

lemma add_date_keys:
  "map fst (add_date t d g) = (if t \<in> set (map fst g) then map fst g else map fst g @ [t])"
  by (induction t d g rule: add_date.induct) auto

lemma add_date_distinct: "distinct (map fst g) \<Longrightarrow> distinct (map fst (add_date t d g))"
  by (simp add: add_date_keys)

text \<open>A group after a date was added: an old group, the old group of the tab with the date
  appended, or a new group holding the date alone.\<close>

lemma add_date_set:
  "(t', xs') \<in> set (add_date t d g) \<Longrightarrow>
     (t', xs') \<in> set g \<or>
     (t' = t \<and> ((\<exists>xs. (t, xs) \<in> set g \<and> xs' = xs @ [d]) \<or> xs' = [d]))"
proof (induction t d g rule: add_date.induct)
  case (1 t d)
  then show ?case by simp
next
  case (2 t d u ds g)
  show ?case
  proof (cases "u = t")
    case True
    with "2.prems" have "(t', xs') = (t, ds @ [d]) \<or> (t', xs') \<in> set g" by simp
    then show ?thesis using True by auto
  next
    case False
    with "2.prems" have "(t', xs') = (u, ds) \<or> (t', xs') \<in> set (add_date t d g)" by simp
    then show ?thesis
    proof
      assume "(t', xs') = (u, ds)"
      with False show ?thesis by simp
    next
      assume "(t', xs') \<in> set (add_date t d g)"
      from "2.IH" [OF False this] show ?thesis by auto
    qed
  qed
qed

subsection \<open>What each call adds to the log\<close>

lemma probe_found_calls:
  "fst (probe c d n log) \<Longrightarrow> snd (probe c d n log) = log @ [Worksheet n, GetAllValues n]"
  by (simp add: probe_def date_exists_in_sheet_def split: ws_lookup.splits option.splits)

lemma probe_log_extends: "\<exists>ext. probe_log c d names log = log @ ext"
  using probe_log_calls [of c d names log] by blast

lemma determine_sheet_extends:
  "\<exists>ext. snd (determine_sheet_for_date c d log) = log @ ext"
proof (cases "open_by_key_r c log")
  case False
  then show ?thesis by (simp add: determine_sheet_for_date_def)
next
  case True
  obtain r l1 where p: "probe_months c d (months_to_check d) (log @ [OpenByKey]) = (r, l1)"
    by (cases "probe_months c d (months_to_check d) (log @ [OpenByKey])")
  have ext: "\<exists>ext. snd (probe_months c' d' ms l) = l @ ext" for c' d' ms l
  proof (induction ms arbitrary: l)
    case Nil
    then show ?case by simp
  next
    case (Cons m ms)
    show ?case
    proof (cases "month_names m")
      case None
      then show ?thesis by simp
    next
      case (Some n)
      obtain b l2 where q: "probe c' d' n l = (b, l2)" by (cases "probe c' d' n l")
      from probe_calls [of c' d' n l] q obtain e1 where e1: "l2 = l @ e1" by auto
      from Cons.IH [of l2] obtain e2 where "snd (probe_months c' d' ms l2) = l2 @ e2" by blast
      with Some q e1 show ?thesis by (cases b) auto
    qed
  qed
  from ext [of c d "months_to_check d" "log @ [OpenByKey]"] p obtain e where e: "l1 = (log @ [OpenByKey]) @ e"
    by auto
  have "snd (determine_sheet_for_date c d log) = l1 \<or>
        snd (determine_sheet_for_date c d log) = list_worksheets c l1"
    using True p by (auto simp: determine_sheet_for_date_def split: sum.splits option.splits)
  then show ?thesis using e by (auto simp: list_worksheets_def)
qed

text \<open>A date that resolves to a tab has had that tab's grid fetched by the existence check.\<close>

lemma determine_sheet_fetches:
  assumes "determine_sheet_for_date c d log = (Inr (Some t), log')"
  shows "\<exists>ext. log' = log @ ext @ [GetAllValues t]"
proof -
  have found: "probe_months c' d' ms l = (Inr (Some t), l') \<Longrightarrow> \<exists>ext. l' = l @ ext @ [GetAllValues t]"
    for c' d' ms l l'
  proof (induction ms arbitrary: l)
    case Nil
    then show ?case by simp
  next
    case (Cons m ms)
    from Cons.prems obtain n where mn: "month_names m = Some n"
      by (cases "month_names m") auto
    obtain b l2 where q: "probe c' d' n l = (b, l2)" by (cases "probe c' d' n l")
    show ?case
    proof (cases b)
      case True
      with Cons.prems mn q have "t = n" and "l' = l2" by auto
      moreover from True q probe_found_calls [of c' d' n l] have "l2 = l @ [Worksheet n, GetAllValues n]"
        by simp
      ultimately have "l' = l @ [Worksheet n] @ [GetAllValues t]" by simp
      then show ?thesis by blast
    next
      case False
      with Cons.prems mn q have "probe_months c' d' ms l2 = (Inr (Some t), l')" by simp
      from Cons.IH [OF this] obtain e2 where e2: "l' = l2 @ e2 @ [GetAllValues t]" by blast
      from probe_calls [of c' d' n l] q obtain e1 where "l2 = l @ e1" by auto
      with e2 have "l' = l @ (e1 @ e2) @ [GetAllValues t]" by simp
      then show ?thesis by blast
    qed
  qed
  from assms have o: "open_by_key_r c log"
    by (auto simp: determine_sheet_for_date_def split: if_splits)
  with assms have "probe_months c d (months_to_check d) (log @ [OpenByKey]) = (Inr (Some t), log')"
    by (auto simp: determine_sheet_for_date_def split: prod.splits sum.splits option.splits)
  from found [OF this] obtain e where "log' = (log @ [OpenByKey]) @ e @ [GetAllValues t]" by blast
  then have "log' = log @ (OpenByKey # e) @ [GetAllValues t]" by simp
  then show ?thesis by blast
qed

lemma process_groups_log:
  "snd (process_groups c g menus log) = log @ map (\<lambda>x. GetAllValues (fst x)) g"
  by (induction g arbitrary: menus log) (auto split: option.splits)

lemma count_distinct_fetches:
  "distinct ts \<Longrightarrow> count_list (map GetAllValues ts) (GetAllValues t) = (if t \<in> set ts then 1 else 0)"
  by (induction ts) auto

subsection \<open>The first loop of the batch\<close>

lemma resolve_dates_distinct:
  "distinct (map fst g) \<Longrightarrow> resolve_dates c ds g log = (Inr g', log') \<Longrightarrow> distinct (map fst g')"
proof (induction ds arbitrary: g log)
  case Nil
  then show ?case by simp
next
  case (Cons d ds)
  obtain r l1 where r: "determine_sheet_for_date c d log = (r, l1)"
    by (cases "determine_sheet_for_date c d log")
  show ?case
  proof (cases r)
    case (Inl e)
    with Cons.prems r show ?thesis by simp
  next
    case (Inr w)
    show ?thesis
    proof (cases w)
      case None
      with Inr r Cons.prems have "resolve_dates c ds g l1 = (Inr g', log')" by simp
      from Cons.IH [OF Cons.prems(1) this] show ?thesis .
    next
      case (Some t)
      with Inr r Cons.prems have "resolve_dates c ds (add_date t d g) l1 = (Inr g', log')" by simp
      from Cons.IH [OF add_date_distinct [OF Cons.prems(1)] this] show ?thesis .
    qed
  qed
qed

text \<open>
  Every date put into a group has cost one fetch of the group's tab: with \<open>n t\<close> fetches
  of tab \<open>t\<close> at the start, a group of tab \<open>t\<close> never holds more dates than fetches made
  since.
\<close>

lemma resolve_dates_fetches:
  assumes "resolve_dates c ds g log = (Inr g', log')"
    and "\<forall>t. n t \<le> count_list log (GetAllValues t)"
    and "\<forall>(t, xs)\<in>set g. n t + length xs \<le> count_list log (GetAllValues t)"
  shows "\<forall>(t, xs)\<in>set g'. n t + length xs \<le> count_list log' (GetAllValues t)"
  using assms
proof (induction ds arbitrary: g log)
  case Nil
  then show ?case by simp
next
  case (Cons d ds)
  obtain r l1 where r: "determine_sheet_for_date c d log = (r, l1)"
    by (cases "determine_sheet_for_date c d log")
  from determine_sheet_extends [of c d log] r obtain ext where ext: "l1 = log @ ext" by auto
  then have mono: "count_list log x \<le> count_list l1 x" for x by simp
  have base: "\<forall>t. n t \<le> count_list l1 (GetAllValues t)"
    using Cons.prems(2) mono le_trans by blast
  show ?case
  proof (cases r)
    case (Inl e)
    with Cons.prems r show ?thesis by simp
  next
    case (Inr w)
    show ?thesis
    proof (cases w)
      case None
      with Inr r Cons.prems have step: "resolve_dates c ds g l1 = (Inr g', log')" by simp
      have "\<forall>(t, xs)\<in>set g. n t + length xs \<le> count_list l1 (GetAllValues t)"
        using Cons.prems(3) mono le_trans by fastforce
      from Cons.IH [OF step base this] show ?thesis .
    next
      case (Some t)
      with Inr r Cons.prems have step: "resolve_dates c ds (add_date t d g) l1 = (Inr g', log')"
        by simp
      from Some Inr r determine_sheet_fetches [of c d log t l1] obtain e where
        "l1 = log @ e @ [GetAllValues t]" by auto
      then have one: "count_list log (GetAllValues t) + 1 \<le> count_list l1 (GetAllValues t)"
        by simp
      have "\<forall>(t', xs')\<in>set (add_date t d g). n t' + length xs' \<le> count_list l1 (GetAllValues t')"
      proof (intro ballI, clarify)
        fix t' xs' assume m: "(t', xs') \<in> set (add_date t d g)"
        from add_date_set [OF m] consider
          (old) "(t', xs') \<in> set g"
          | (grown) xs where "t' = t" "(t, xs) \<in> set g" "xs' = xs @ [d]"
          | (new) "t' = t" "xs' = [d]"
          by blast
        then show "n t' + length xs' \<le> count_list l1 (GetAllValues t')"
        proof cases
          case old
          with Cons.prems(3) have "n t' + length xs' \<le> count_list log (GetAllValues t')" by auto
          with mono [of "GetAllValues t'"] show ?thesis by linarith
        next
          case grown
          with Cons.prems(3) have "n t + length xs \<le> count_list log (GetAllValues t)" by auto
          with one grown show ?thesis by simp
        next
          case new
          from Cons.prems(2) have "n t \<le> count_list log (GetAllValues t)" by blast
          with one new show ?thesis by simp
        qed
      qed
      from Cons.IH [OF step base this] show ?thesis .
    qed
  qed
qed

subsection \<open>Claims on the batch resolver\<close>

text \<open>
  C1, as stated: two dates that resolve to the tab Mars. The grid of Mars is fetched three
  times over the whole run, once by the existence check of each date and once by the
  second loop.
\<close>

theorem single_fetch_counterexample:
  "fst (determine_sheet_for_date sheets_mars march_10 []) = Inr (Some ''Mars'') \<and>
   fst (determine_sheet_for_date sheets_mars march_11
          [OpenByKey, Worksheet ''Mars'', GetAllValues ''Mars'']) = Inr (Some ''Mars'') \<and>
   snd (get_menus_for_dates sheets_mars [march_10, march_11] []) =
     [OpenByKey, Worksheet ''Mars'', GetAllValues ''Mars'',
      OpenByKey, Worksheet ''Mars'', GetAllValues ''Mars'',
      GetAllValues ''Mars''] \<and>
   count_list (snd (get_menus_for_dates sheets_mars [march_10, march_11] []))
     (GetAllValues ''Mars'') = 3"
proof -
  have a: "fst (determine_sheet_for_date sheets_mars march_10 []) = Inr (Some ''Mars'')"
    by code_simp
  have b: "fst (determine_sheet_for_date sheets_mars march_11
          [OpenByKey, Worksheet ''Mars'', GetAllValues ''Mars'']) = Inr (Some ''Mars'')"
    by code_simp
  have c: "snd (get_menus_for_dates sheets_mars [march_10, march_11] []) =
     [OpenByKey, Worksheet ''Mars'', GetAllValues ''Mars'',
      OpenByKey, Worksheet ''Mars'', GetAllValues ''Mars'',
      GetAllValues ''Mars'']"
    by code_simp
  have d: "count_list (snd (get_menus_for_dates sheets_mars [march_10, march_11] []))
     (GetAllValues ''Mars'') = 3"
    unfolding c by simp
  from a b c d show ?thesis by blast
qed

text \<open>
  C1, amended: in a batch that returns, the second loop fetches the grid of each tab that
  has a group exactly once, however many dates the group holds, and fetches nothing
  else; over the whole run a tab whose group holds \<open>n\<close> dates is fetched at least
  \<open>n + 1\<close> times, since the existence check has fetched it once for each of those dates.
\<close>

theorem second_loop_fetches_once:
  assumes "setup_connection c" and "get_menus_for_dates c dates log = (Inr menus, log')"
  shows "\<exists>groups logr. resolve_dates c dates [] log = (Inr groups, logr) \<and>
           distinct (map fst groups) \<and>
           log' = logr @ map GetAllValues (map fst groups) \<and>
           (\<forall>t. count_list (map GetAllValues (map fst groups)) (GetAllValues t) =
                  (if t \<in> set (map fst groups) then 1 else 0)) \<and>
           (\<forall>(t, ds)\<in>set groups.
              count_list log (GetAllValues t) + length ds + 1 \<le> count_list log' (GetAllValues t))"
proof -
  from assms obtain groups logr where r: "resolve_dates c dates [] log = (Inr groups, logr)"
    and p: "process_groups c groups [] logr = (menus, log')"
    by (auto simp: get_menus_for_dates_def split: prod.splits sum.splits)
  have dist: "distinct (map fst groups)"
    using resolve_dates_distinct [OF _ r] by simp
  have log': "log' = logr @ map GetAllValues (map fst groups)"
    using process_groups_log [of c groups "[]" logr] p by simp
  have once: "\<forall>t. count_list (map GetAllValues (map fst groups)) (GetAllValues t) =
                  (if t \<in> set (map fst groups) then 1 else 0)"
    using count_distinct_fetches [OF dist] by blast
  have before: "\<forall>(t, ds)\<in>set groups.
      count_list log (GetAllValues t) + length ds \<le> count_list logr (GetAllValues t)"
    using resolve_dates_fetches [OF r, of "\<lambda>t. count_list log (GetAllValues t)"] by simp
  have total: "\<forall>(t, ds)\<in>set groups.
      count_list log (GetAllValues t) + length ds + 1 \<le> count_list log' (GetAllValues t)"
  proof (intro ballI, clarify)
    fix t ds assume m: "(t, ds) \<in> set groups"
    then have "t \<in> set (map fst groups)" by force
    with once have "count_list (map GetAllValues (map fst groups)) (GetAllValues t) = 1" by simp
    moreover from before m have
      "count_list log (GetAllValues t) + length ds \<le> count_list logr (GetAllValues t)" by auto
    ultimately show "count_list log (GetAllValues t) + length ds + 1 \<le> count_list log' (GetAllValues t)"
      unfolding log' by simp
  qed
  from r dist log' once total show ?thesis by blast
qed

theorem second_loop_fetches_once_witness:
  "setup_connection sheets_mars \<and>
   get_menus_for_dates sheets_mars [march_10, march_11] [] =
     (Inr [(''2025-03-10'', \<lparr>midi = ''Pates'', soir = ''Soupe''\<rparr>),
           (''2025-03-11'', \<lparr>midi = ''Riz'', soir = ''Salade''\<rparr>)],
      [OpenByKey, Worksheet ''Mars'', GetAllValues ''Mars'',
       OpenByKey, Worksheet ''Mars'', GetAllValues ''Mars'',
       GetAllValues ''Mars'']) \<and>
   (\<exists>groups logr. resolve_dates sheets_mars [march_10, march_11] [] [] = (Inr groups, logr) \<and>
      distinct (map fst groups) \<and>
      [OpenByKey, Worksheet ''Mars'', GetAllValues ''Mars'',
       OpenByKey, Worksheet ''Mars'', GetAllValues ''Mars'',
       GetAllValues ''Mars''] = logr @ map GetAllValues (map fst groups))"
proof -
  have s: "setup_connection sheets_mars" by code_simp
  have g: "get_menus_for_dates sheets_mars [march_10, march_11] [] =
     (Inr [(''2025-03-10'', \<lparr>midi = ''Pates'', soir = ''Soupe''\<rparr>),
           (''2025-03-11'', \<lparr>midi = ''Riz'', soir = ''Salade''\<rparr>)],
      [OpenByKey, Worksheet ''Mars'', GetAllValues ''Mars'',
       OpenByKey, Worksheet ''Mars'', GetAllValues ''Mars'',
       GetAllValues ''Mars''])"
    by code_simp
  from second_loop_fetches_once [OF s g] s g show ?thesis by blast
qed

subsection \<open>Entries of the batch result\<close>


text \<open>
  C2, as stated: an empty grid, and a batch whose tab is found empty by the second loop.
  The scan finds nothing, no entry is written, and the batch result has no key for the
  date.
\<close>

theorem empty_entry_counterexample:
  "extract_menu [] (strftime_dm march_10) = None \<and>
   extract_date [] [] march_10 = [] \<and>
   map_of (extract_date [] [] march_10) (strftime_ymd march_10) = None \<and>
   get_menus_for_dates sheets_emptied [march_10] [] =
     (Inr [], [OpenByKey, Worksheet ''Mars'', GetAllValues ''Mars'', GetAllValues ''Mars''])"
proof -
  have a: "extract_menu [] (strftime_dm march_10) = None" by code_simp
  have b: "extract_date [] [] march_10 = []" by code_simp
  have c: "map_of (extract_date [] [] march_10) (strftime_ymd march_10) = None"
    unfolding b by simp
  have d: "get_menus_for_dates sheets_emptied [march_10] [] =
     (Inr [], [OpenByKey, Worksheet ''Mars'', GetAllValues ''Mars'', GetAllValues ''Mars''])"
    by code_simp
  from a b c d show ?thesis by blast
qed

text \<open>
  C2, amended: the scan is a total function of the grid and the target text. On a grid
  with zero rows, and on any grid in which no header-candidate row carries the date past
  column 0, it finds nothing and the result is left as it was, so a date that had no key
  still has none; the caller then reads both fields of the absent entry as empty
  strings. When the scan finds the date, the entry it read is stored under the date's
  key.
\<close>

theorem no_match_writes_nothing:
  "(av = [] \<longrightarrow> extract_menu av t = None) \<and>
   ((\<forall>i c. i < length av \<and> header_candidate (av ! i) \<and> 1 \<le> c \<and> c < length (av ! i)
            \<longrightarrow> \<not> cell_has_date t (av ! i ! c))
      \<longrightarrow> extract_menu av t = None) \<and>
   (extract_menu av (strftime_dm d) = None \<longrightarrow>
      extract_date av menus d = menus \<and>
      (map_of menus (strftime_ymd d) = None \<longrightarrow>
         map_of (extract_date av menus d) (strftime_ymd d) = None \<and>
         menu_fields (extract_date av menus d) (strftime_ymd d) = \<lparr>midi = [], soir = []\<rparr>)) \<and>
   (\<forall>e. extract_menu av (strftime_dm d) = Some e \<longrightarrow>
      map_of (extract_date av menus d) (strftime_ymd d) = Some e \<and>
      menu_fields (extract_date av menus d) (strftime_ymd d) = e)"
proof -
  have none: "extract_menu av t = None \<longleftrightarrow> find_date_cell av t 0 = None"
    by (simp add: extract_menu_def split: option.splits)
  have a: "av = [] \<longrightarrow> extract_menu av t = None"
    unfolding none by (simp add: find_date_cell_None)
  have b: "(\<forall>i c. i < length av \<and> header_candidate (av ! i) \<and> 1 \<le> c \<and> c < length (av ! i)
            \<longrightarrow> \<not> cell_has_date t (av ! i ! c))
      \<longrightarrow> extract_menu av t = None"
    unfolding none using find_date_cell_None [of av t 0] by auto
  have c: "extract_menu av (strftime_dm d) = None \<longrightarrow>
      extract_date av menus d = menus \<and>
      (map_of menus (strftime_ymd d) = None \<longrightarrow>
         map_of (extract_date av menus d) (strftime_ymd d) = None \<and>
         menu_fields (extract_date av menus d) (strftime_ymd d) = \<lparr>midi = [], soir = []\<rparr>)"
    by (simp add: extract_date_def menu_fields_def)
  have d: "\<forall>e. extract_menu av (strftime_dm d) = Some e \<longrightarrow>
      map_of (extract_date av menus d) (strftime_ymd d) = Some e \<and>
      menu_fields (extract_date av menus d) (strftime_ymd d) = e"
    by (simp add: extract_date_def menu_fields_def AList.update_conv')
  from a b c d show ?thesis by blast
qed

theorem no_match_writes_nothing_witness:
  "extract_menu column0_grid (strftime_dm march_10) = None \<and>
   extract_date column0_grid [] march_10 = [] \<and>
   menu_fields (extract_date column0_grid [] march_10) (strftime_ymd march_10) =
     \<lparr>midi = [], soir = []\<rparr>"
proof -
  have n: "extract_menu column0_grid (strftime_dm march_10) = None" by code_simp
  have m: "map_of [] (strftime_ymd march_10) = (None :: menu option)" by simp
  from no_match_writes_nothing [of column0_grid "strftime_dm march_10" march_10 "[]"] n m
  show ?thesis by blast
qed

subsection \<open>Failures in the batch\<close>





subsection \<open>What the two loops of the batch do\<close>






















text \<open>With a service that cannot be opened, the first resolution raises and ends the batch.\<close>

lemma unreachable_service_raises:
  "get_menus_for_dates sheets_unreachable [march_10, march_11] [] = (Inl APIError, [OpenByKey])"
  by code_simp

end
